theory Spec2Isabelle
  imports Main "HOL-Library.Word" "HOL-Library.List_Lexorder" "HOL-Library.Multiset"
begin

section \<open>Bytes, hashes and block numbers\<close>

text \<open>
  Go's \<^verbatim>\<open>[]byte\<close> is a list of 8-bit words; the nil slice and the empty slice are both
  \<open>[]\<close>, which is how every accessor of \<^verbatim>\<open>core/rawdb/accessors_chain.go\<close> treats
  them (\<^verbatim>\<open>len(data) == 0\<close>). A \<^verbatim>\<open>common.Hash\<close> is a 32-byte array, a block number a
  \<^verbatim>\<open>uint64\<close>.
\<close>

type_synonym byte = "8 word"
type_synonym bytes = "byte list"
type_synonym hash = "byte list"
type_synonym u64 = "64 word"

definition HashLength :: nat where
  "HashLength = 32"

text \<open>
  \<^verbatim>\<open>common.BytesToHash\<close> (go-ethereum): a slice longer than 32 bytes is cropped from the
  left, a shorter one is copied to the right end of a zeroed array.
\<close>

definition BytesToHash :: "bytes \<Rightarrow> hash" where
  "BytesToHash b =
     (if length b > HashLength then drop (length b - HashLength) b
      else replicate (HashLength - length b) 0 @ b)"

text \<open>
  \<^verbatim>\<open>binary.BigEndian.Uint64\<close> and its inverse on 8 bytes, on the level of natural
  numbers first.
\<close>

fun be_decode :: "bytes \<Rightarrow> nat" where
  "be_decode [] = 0"
| "be_decode (b # bs) = unat b * 256 ^ length bs + be_decode bs"

fun be_encode :: "nat \<Rightarrow> nat \<Rightarrow> bytes" where
  "be_encode 0 n = []"
| "be_encode (Suc k) n = word_of_nat (n div 256 ^ k) # be_encode k n"

definition Uint64 :: "bytes \<Rightarrow> u64" where
  "Uint64 b = word_of_nat (be_decode (take 8 b))"

text \<open>
  Modelled from the spec: \<^verbatim>\<open>encodeBlockNumber\<close> lives in the schema file, which is not
  part of the sources at hand; section 4.1 fixes it as the 8-byte big-endian encoding of
  the block number.
\<close>

definition encodeBlockNumber :: "u64 \<Rightarrow> bytes" where
  "encodeBlockNumber number = be_encode 8 (unat number)"

section \<open>Key schema\<close>

text \<open>
  The key prefixes are constants of the schema file. Their values are not fixed by the
  sources at hand, so they are the fields of a parameter.
\<close>

record schema =
  headerPrefix :: bytes
  headerTDSuffix :: bytes
  blockBodyPrefix :: bytes
  blockReceiptsPrefix :: bytes
  badBlockKey :: bytes

text \<open>
  Modelled from the spec: the canonical-hash key is \<^verbatim>\<open>headerPrefix+number+"n"\<close>
  (section 6), so the suffix is the single byte \<^verbatim>\<open>'n'\<close>.
\<close>

definition headerHashSuffix :: bytes where
  "headerHashSuffix = [0x6e]"

text \<open>
  Modelled from the spec: the key builders of the schema file (section 4.1 and the
  persisted layout of section 6): prefix, then the 8-byte number, then the 32-byte hash,
  then the suffix if the kind has one.
\<close>

definition headerKeyPrefix :: "schema \<Rightarrow> u64 \<Rightarrow> bytes" where
  "headerKeyPrefix sc number = headerPrefix sc @ encodeBlockNumber number"

definition headerKey :: "schema \<Rightarrow> u64 \<Rightarrow> hash \<Rightarrow> bytes" where
  "headerKey sc number hash = headerPrefix sc @ encodeBlockNumber number @ hash"

definition headerHashKey :: "schema \<Rightarrow> u64 \<Rightarrow> bytes" where
  "headerHashKey sc number = headerPrefix sc @ encodeBlockNumber number @ headerHashSuffix"

definition headerTDKey :: "schema \<Rightarrow> u64 \<Rightarrow> hash \<Rightarrow> bytes" where
  "headerTDKey sc number hash = headerKey sc number hash @ headerTDSuffix sc"

definition blockBodyKey :: "schema \<Rightarrow> u64 \<Rightarrow> hash \<Rightarrow> bytes" where
  "blockBodyKey sc number hash = blockBodyPrefix sc @ encodeBlockNumber number @ hash"

definition blockReceiptsKey :: "schema \<Rightarrow> u64 \<Rightarrow> hash \<Rightarrow> bytes" where
  "blockReceiptsKey sc number hash = blockReceiptsPrefix sc @ encodeBlockNumber number @ hash"

section \<open>The two-tier store as a reader sees it\<close>

text \<open>
  The ancient store is a family of append-only tables indexed by block number; the live
  store maps keys to values. A lookup of the live store finds a value, finds nothing, or
  fails; a lookup of an ancient table yields the item or an error (\<open>None\<close>).
\<close>

datatype table =
    freezerHashTable
  | freezerHeaderTable
  | freezerBodiesTable
  | freezerReceiptTable
  | freezerDifficultyTable

datatype kv_result = Found bytes | NotFound | Failed

record snapshot =
  ancients :: "table \<Rightarrow> u64 \<Rightarrow> bytes option"
  live :: "bytes \<Rightarrow> kv_result"

text \<open>
  Each operation returns Go's pair of a value and an error, the error as the flag
  \<^verbatim>\<open>err != nil\<close>. A failed call returns nil data.
\<close>

definition Ancient :: "snapshot \<Rightarrow> table \<Rightarrow> u64 \<Rightarrow> bytes \<times> bool" where
  "Ancient s kind number =
     (case ancients s kind number of None \<Rightarrow> ([], True) | Some d \<Rightarrow> (d, False))"

definition Get :: "snapshot \<Rightarrow> bytes \<Rightarrow> bytes \<times> bool" where
  "Get s key = (case live s key of Found v \<Rightarrow> (v, False) | NotFound \<Rightarrow> ([], True) | Failed \<Rightarrow> ([], True))"

definition Has :: "snapshot \<Rightarrow> bytes \<Rightarrow> bool \<times> bool" where
  "Has s key = (case live s key of Found v \<Rightarrow> (True, False) | NotFound \<Rightarrow> (False, False) | Failed \<Rightarrow> (False, True))"

text \<open>
  The accessors hold no lock, and the freezer moves records from the live store to the
  ancient store while they run. A reader is therefore given a sequence of snapshots:
  \<open>db i\<close> is the content of the store at the moment the \<open>i\<close>-th store access in the text
  of the accessor is made. A store that nobody changes is a constant sequence.
\<close>

type_synonym reader = "nat \<Rightarrow> snapshot"

definition still :: "snapshot \<Rightarrow> reader" where
  "still s = (\<lambda>i. s)"

definition later :: "nat \<Rightarrow> reader \<Rightarrow> reader" where
  "later k db = (\<lambda>i. db (i + k))"

section \<open>Raw reads\<close>

definition ReadHeaderRLP :: "schema \<Rightarrow> reader \<Rightarrow> hash \<Rightarrow> u64 \<Rightarrow> bytes" where
  "ReadHeaderRLP sc db hash number =
     (let data = fst (Ancient (db 0) freezerHeaderTable number) in
      if length data > 0 then data
      else
        let data = fst (Get (db 1) (headerKey sc number hash)) in
        if length data > 0 then data
        else
          let data = fst (Ancient (db 2) freezerHeaderTable number) in
          if length data > 0 then data else [])"

definition ReadBodyRLP :: "schema \<Rightarrow> reader \<Rightarrow> hash \<Rightarrow> u64 \<Rightarrow> bytes" where
  "ReadBodyRLP sc db hash number =
     (let data = fst (Ancient (db 0) freezerBodiesTable number) in
      if length data > 0 \<and> BytesToHash (fst (Ancient (db 1) freezerHashTable number)) = hash
      then data
      else
        let data = fst (Get (db 2) (blockBodyKey sc number hash)) in
        if length data > 0 then data
        else
          let data = fst (Ancient (db 3) freezerBodiesTable number) in
          if length data > 0 \<and> BytesToHash (fst (Ancient (db 4) freezerHashTable number)) = hash
          then data
          else [])"

definition ReadTdRLP :: "schema \<Rightarrow> reader \<Rightarrow> hash \<Rightarrow> u64 \<Rightarrow> bytes" where
  "ReadTdRLP sc db hash number =
     (let data = fst (Ancient (db 0) freezerDifficultyTable number) in
      if length data > 0 \<and> BytesToHash (fst (Ancient (db 1) freezerHashTable number)) = hash
      then data
      else
        let data = fst (Get (db 2) (headerTDKey sc number hash)) in
        if length data > 0 then data
        else
          let data = fst (Ancient (db 3) freezerDifficultyTable number) in
          if length data > 0 \<and> BytesToHash (fst (Ancient (db 4) freezerHashTable number)) = hash
          then data
          else [])"

definition ReadReceiptsRLP :: "schema \<Rightarrow> reader \<Rightarrow> hash \<Rightarrow> u64 \<Rightarrow> bytes" where
  "ReadReceiptsRLP sc db hash number =
     (let data = fst (Ancient (db 0) freezerReceiptTable number) in
      if length data > 0 \<and> BytesToHash (fst (Ancient (db 1) freezerHashTable number)) = hash
      then data
      else
        let data = fst (Get (db 2) (blockReceiptsKey sc number hash)) in
        if length data > 0 then data
        else
          let data = fst (Ancient (db 3) freezerReceiptTable number) in
          if length data > 0 \<and> BytesToHash (fst (Ancient (db 4) freezerHashTable number)) = hash
          then data
          else [])"

section \<open>Existence checks\<close>

definition HasHeader :: "schema \<Rightarrow> reader \<Rightarrow> hash \<Rightarrow> u64 \<Rightarrow> bool" where
  "HasHeader sc db hash number =
     (let (has, err) = Ancient (db 0) freezerHashTable number in
      if \<not> err \<and> BytesToHash has = hash then True
      else
        let (has, err) = Has (db 1) (headerKey sc number hash) in
        if \<not> has \<or> err then False else True)"

definition HasBody :: "schema \<Rightarrow> reader \<Rightarrow> hash \<Rightarrow> u64 \<Rightarrow> bool" where
  "HasBody sc db hash number =
     (let (has, err) = Ancient (db 0) freezerHashTable number in
      if \<not> err \<and> BytesToHash has = hash then True
      else
        let (has, err) = Has (db 1) (blockBodyKey sc number hash) in
        if \<not> has \<or> err then False else True)"

definition HasReceipts :: "schema \<Rightarrow> reader \<Rightarrow> hash \<Rightarrow> u64 \<Rightarrow> bool" where
  "HasReceipts sc db hash number =
     (let (has, err) = Ancient (db 0) freezerHashTable number in
      if \<not> err \<and> BytesToHash has = hash then True
      else
        let (has, err) = Has (db 1) (blockReceiptsKey sc number hash) in
        if \<not> has \<or> err then False else True)"

section \<open>Decoded reads\<close>

text \<open>
  The entity types and their RLP codec belong to other packages. A header is known here
  by its number (a \<^verbatim>\<open>*big.Int\<close>), its parent hash and the rest of its content; the
  decoders are parameters, \<open>None\<close> standing for a decoding error. A result of \<open>None\<close>
  is Go's nil.
\<close>

record header =
  Number :: int
  ParentHash :: hash
  HeaderRest :: bytes

record 'tx body =
  Transactions :: "'tx list"
  Randomness :: bytes
  EpochSnarkData :: bytes

definition ReadHeader ::
  "(bytes \<Rightarrow> header option) \<Rightarrow> schema \<Rightarrow> reader \<Rightarrow> hash \<Rightarrow> u64 \<Rightarrow> header option" where
  "ReadHeader decode sc db hash number =
     (let data = ReadHeaderRLP sc db hash number in
      if length data = 0 then None
      else case decode data of None \<Rightarrow> None | Some header \<Rightarrow> Some header)"

definition ReadBody ::
  "(bytes \<Rightarrow> 'tx body option) \<Rightarrow> schema \<Rightarrow> reader \<Rightarrow> hash \<Rightarrow> u64 \<Rightarrow> 'tx body option" where
  "ReadBody decode sc db hash number =
     (let data = ReadBodyRLP sc db hash number in
      if length data = 0 then None
      else case decode data of None \<Rightarrow> None | Some body \<Rightarrow> Some body)"

definition ReadTd ::
  "(bytes \<Rightarrow> int option) \<Rightarrow> schema \<Rightarrow> reader \<Rightarrow> hash \<Rightarrow> u64 \<Rightarrow> int option" where
  "ReadTd decode sc db hash number =
     (let data = ReadTdRLP sc db hash number in
      if length data = 0 then None
      else case decode data of None \<Rightarrow> None | Some td \<Rightarrow> Some td)"

text \<open>
  \<^verbatim>\<open>ReadRawReceipts\<close> decodes the storage form and converts each element to a receipt;
  the conversion is a cast between two names of one struct.
\<close>

definition ReadRawReceipts ::
  "(bytes \<Rightarrow> 'r list option) \<Rightarrow> schema \<Rightarrow> reader \<Rightarrow> hash \<Rightarrow> u64 \<Rightarrow> 'r list option" where
  "ReadRawReceipts decode sc db hash number =
     (let data = ReadReceiptsRLP sc db hash number in
      if length data = 0 then None
      else case decode data of
             None \<Rightarrow> None
           | Some storageReceipts \<Rightarrow> Some (map (\<lambda>storageReceipt. storageReceipt) storageReceipts))"

section \<open>The read path as section 4.2 words it\<close>

text \<open>
  The three hash-verified raw reads, addressed by the kind of record, and the table and
  live key each of them uses.
\<close>

datatype kind = BodyKind | ReceiptsKind | TdKind

fun table_of :: "kind \<Rightarrow> table" where
  "table_of BodyKind = freezerBodiesTable"
| "table_of ReceiptsKind = freezerReceiptTable"
| "table_of TdKind = freezerDifficultyTable"

fun key_of :: "kind \<Rightarrow> schema \<Rightarrow> u64 \<Rightarrow> hash \<Rightarrow> bytes" where
  "key_of BodyKind sc number hash = blockBodyKey sc number hash"
| "key_of ReceiptsKind sc number hash = blockReceiptsKey sc number hash"
| "key_of TdKind sc number hash = headerTDKey sc number hash"

fun read_rlp :: "kind \<Rightarrow> schema \<Rightarrow> reader \<Rightarrow> hash \<Rightarrow> u64 \<Rightarrow> bytes" where
  "read_rlp BodyKind = ReadBodyRLP"
| "read_rlp ReceiptsKind = ReadReceiptsRLP"
| "read_rlp TdKind = ReadTdRLP"

text \<open>
  The specification's steps. Step 1 and step 3: the item of the ancient table at the
  number, accepted only if the canonical-hash table's entry for the number converts to
  the requested hash. Step 2: the value under the hash-qualified key of the live store.
  A miss is \<open>None\<close>.
\<close>

definition canonical_hash_matches :: "snapshot \<Rightarrow> u64 \<Rightarrow> hash \<Rightarrow> bool" where
  "canonical_hash_matches s number hash =
     (BytesToHash (case ancients s freezerHashTable number of None \<Rightarrow> [] | Some h \<Rightarrow> h) = hash)"

definition spec_ancient_probe :: "snapshot \<Rightarrow> snapshot \<Rightarrow> table \<Rightarrow> hash \<Rightarrow> u64 \<Rightarrow> bytes option" where
  "spec_ancient_probe s s' tbl hash number =
     (case ancients s tbl number of
        None \<Rightarrow> None
      | Some d \<Rightarrow> if d \<noteq> [] \<and> canonical_hash_matches s' number hash then Some d else None)"

definition spec_live_probe :: "snapshot \<Rightarrow> bytes \<Rightarrow> bytes option" where
  "spec_live_probe s key =
     (case live s key of Found v \<Rightarrow> if v \<noteq> [] then Some v else None | NotFound \<Rightarrow> None | Failed \<Rightarrow> None)"

definition spec_read :: "reader \<Rightarrow> table \<Rightarrow> bytes \<Rightarrow> hash \<Rightarrow> u64 \<Rightarrow> bytes" where
  "spec_read db tbl key hash number =
     (case spec_ancient_probe (db 0) (db 1) tbl hash number of
        Some d \<Rightarrow> d
      | None \<Rightarrow>
          (case spec_live_probe (db 2) key of
             Some d \<Rightarrow> d
           | None \<Rightarrow>
               (case spec_ancient_probe (db 3) (db 4) tbl hash number of
                  Some d \<Rightarrow> d
                | None \<Rightarrow> [])))"

text \<open>
  What it means for the record \<open>d\<close> of block \<open>(hash, number)\<close> to be stored in a
  snapshot: it is frozen (the ancient table holds it at the number and the canonical hash
  there is the block's) or it is the value under the live key; the canonical hash at the
  number is the block's only if the table holds the record; and the live key holds the
  record or nothing. The ancient store is append-only: an item, once there, is there in
  every later snapshot.
\<close>

definition frozen :: "snapshot \<Rightarrow> table \<Rightarrow> u64 \<Rightarrow> hash \<Rightarrow> bytes \<Rightarrow> bool" where
  "frozen s tbl number hash d =
     (ancients s tbl number = Some d \<and> ancients s freezerHashTable number \<noteq> None
      \<and> canonical_hash_matches s number hash)"

definition stored :: "snapshot \<Rightarrow> table \<Rightarrow> bytes \<Rightarrow> u64 \<Rightarrow> hash \<Rightarrow> bytes \<Rightarrow> bool" where
  "stored s tbl key number hash d =
     ((frozen s tbl number hash d \<or> live s key = Found d)
      \<and> (if canonical_hash_matches s number hash \<and> ancients s tbl number \<noteq> None
          then ancients s tbl number = Some d else True)
      \<and> (live s key = Found d \<or> live s key = NotFound))"

definition append_only :: "reader \<Rightarrow> u64 \<Rightarrow> bool" where
  "append_only db number =
     (\<forall>i t. ancients (db i) t number = None \<or> ancients (db (Suc i)) t number = ancients (db i) t number)"

text \<open>
  An existence check that made the two probes only: the canonical-hash table, read without
  error and equal to the requested hash, or else the live key.
\<close>

definition two_probe_check :: "reader \<Rightarrow> bytes \<Rightarrow> hash \<Rightarrow> u64 \<Rightarrow> bool" where
  "two_probe_check db key hash number =
     (if ancients (db 0) freezerHashTable number \<noteq> None \<and> canonical_hash_matches (db 0) number hash
      then True
      else case live (db 1) key of Found v \<Rightarrow> True | NotFound \<Rightarrow> False | Failed \<Rightarrow> False)"

section \<open>A block in migration\<close>

text \<open>
  A concrete schema, a block \<open>(hash0, 7)\<close> whose header, body, receipts and total
  difficulty are all the one-byte string \<open>data0\<close>, a snapshot with the block in the live
  store only, a snapshot with the block in the ancient store only, and the readers that
  see the freezer move the block before their \<open>k\<close>-th store access.
\<close>

definition schema0 :: schema where
  "schema0 = \<lparr>headerPrefix = [0x68], headerTDSuffix = [0x74], blockBodyPrefix = [0x62],
      blockReceiptsPrefix = [0x72], badBlockKey = [0x49, 0x42]\<rparr>"

definition hash0 :: hash where
  "hash0 = replicate 32 0xAB"

definition data0 :: bytes where
  "data0 = [0xC0]"

definition live_only :: snapshot where
  "live_only =
     \<lparr>ancients = (\<lambda>t n. None),
      live = (\<lambda>k. if k = headerKey schema0 7 hash0 \<or> k = blockBodyKey schema0 7 hash0
                     \<or> k = blockReceiptsKey schema0 7 hash0 \<or> k = headerTDKey schema0 7 hash0
                  then Found data0 else NotFound)\<rparr>"

definition ancient_only :: snapshot where
  "ancient_only =
     \<lparr>ancients = (\<lambda>t n. if n = 7 then Some (if t = freezerHashTable then hash0 else data0) else None),
      live = (\<lambda>k. NotFound)\<rparr>"

definition moved_before :: "nat \<Rightarrow> reader" where
  "moved_before k = (\<lambda>i. if i < k then live_only else ancient_only)"

text \<open>A header that \<open>data0\<close> decodes to, and a decoder that knows only it.\<close>

definition header0 :: header where
  "header0 = \<lparr>Number = 7, ParentHash = replicate 32 0x11, HeaderRest = []\<rparr>"

definition decode_header0 :: "bytes \<Rightarrow> header option" where
  "decode_header0 b = (if b = data0 then Some header0 else None)"

section \<open>Receipt and log metadata\<close>

text \<open>
  A log with the fields \<^verbatim>\<open>deriveLogFields\<close> writes and the stored ones it leaves alone.
  \<^verbatim>\<open>TxIndex\<close> and \<^verbatim>\<open>Index\<close> are Go's \<^verbatim>\<open>uint\<close>; they count logs and transactions held
  in memory, and are natural numbers here. The receipts that \<^verbatim>\<open>ReadLogs\<close> passes in are
  fresh from the decoder, so no two of the pointers the Go code writes through are the
  same, and writing through them is the replacement of list elements.
\<close>

record log =
  Address :: bytes
  Topics :: "hash list"
  Data :: bytes
  BlockNumber :: u64
  TxHash :: hash
  TxIndex :: nat
  BlockHash :: hash
  Index :: nat
  Removed :: bool

record receiptLogs =
  Logs :: "log list"

datatype failure = Error string | Panic string

text \<open>The inner loops: every log of one receipt, with the running log index.\<close>

fun derive_logs :: "hash \<Rightarrow> u64 \<Rightarrow> hash \<Rightarrow> nat \<Rightarrow> nat \<Rightarrow> log list \<Rightarrow> log list \<times> nat" where
  "derive_logs hash number txHash i logIndex [] = ([], logIndex)"
| "derive_logs hash number txHash i logIndex (l # ls) =
     (let l' = l\<lparr>BlockNumber := number, BlockHash := hash, TxHash := txHash, TxIndex := i,
                 Index := logIndex\<rparr>;
          (ls', logIndex') = derive_logs hash number txHash i (logIndex + 1) ls
      in (l' # ls', logIndex'))"

text \<open>
  The loop over the transactions, \<open>i\<close> counting up from the position of the first one
  left; \<^verbatim>\<open>receipts[i]\<close> beyond the end of the slice is Go's index panic.
\<close>

fun derive_txs ::
  "('tx \<Rightarrow> hash) \<Rightarrow> hash \<Rightarrow> u64 \<Rightarrow> nat \<Rightarrow> nat \<Rightarrow> 'tx list \<Rightarrow> receiptLogs list
     \<Rightarrow> failure + (receiptLogs list \<times> nat)" where
  "derive_txs txhash hash number i logIndex [] receipts = Inr (receipts, logIndex)"
| "derive_txs txhash hash number i logIndex (tx # txs) [] = Inl (Panic ''index out of range'')"
| "derive_txs txhash hash number i logIndex (tx # txs) (r # receipts) =
     (let (ls, logIndex') = derive_logs hash number (txhash tx) i logIndex (Logs r) in
      case derive_txs txhash hash number (i + 1) logIndex' txs receipts of
        Inl e \<Rightarrow> Inl e
      | Inr (receipts', logIndex'') \<Rightarrow> Inr (r\<lparr>Logs := ls\<rparr> # receipts', logIndex''))"

definition deriveLogFields ::
  "('tx \<Rightarrow> hash) \<Rightarrow> receiptLogs list \<Rightarrow> hash \<Rightarrow> u64 \<Rightarrow> 'tx list \<Rightarrow> failure + receiptLogs list" where
  "deriveLogFields txhash receipts hash number txs =
     (if \<not> (length txs = length receipts \<or> length txs + 1 = length receipts)
      then Inl (Error ''transaction and receipt count mismatch'')
      else
        case derive_txs txhash hash number 0 0 txs receipts of
          Inl e \<Rightarrow> Inl e
        | Inr (receipts', logIndex) \<Rightarrow>
            if length txs + 1 = length receipts'
            then
              let j = length txs;
                  (ls, logIndex') = derive_logs hash number hash j logIndex (Logs (receipts' ! j))
              in Inr (receipts'[j := (receipts' ! j)\<lparr>Logs := ls\<rparr>])
            else Inr receipts')"

definition ReadLogs ::
  "(bytes \<Rightarrow> receiptLogs list option) \<Rightarrow> (bytes \<Rightarrow> 'tx body option) \<Rightarrow> ('tx \<Rightarrow> hash)
     \<Rightarrow> schema \<Rightarrow> reader \<Rightarrow> hash \<Rightarrow> u64 \<Rightarrow> log list list option" where
  "ReadLogs decodeReceipts decodeBody txhash sc db hash number =
     (let data = ReadReceiptsRLP sc db hash number in
      if length data = 0 then None
      else
        case decodeReceipts data of
          None \<Rightarrow> None
        | Some receipts \<Rightarrow>
            (case ReadBody decodeBody sc (later 5 db) hash number of
               None \<Rightarrow> None
             | Some body \<Rightarrow>
                 (case deriveLogFields txhash receipts hash number (Transactions body) of
                    Inl err \<Rightarrow> None
                  | Inr receipts' \<Rightarrow> Some (map Logs receipts'))))"

text \<open>
  The derived fields as the specification words them: the log at position \<open>j\<close> of the
  receipt at position \<open>i\<close> gets the block's number and hash, the hash of transaction \<open>i\<close>
  (the block hash for the receipt past the last transaction), the index \<open>i\<close>, and as its log
  index the number of logs before it in the block.
\<close>

definition logs_before :: "receiptLogs list \<Rightarrow> nat \<Rightarrow> nat" where
  "logs_before receipts i = sum_list (map (\<lambda>r. length (Logs r)) (take i receipts))"

definition spec_log :: "hash \<Rightarrow> u64 \<Rightarrow> hash \<Rightarrow> nat \<Rightarrow> nat \<Rightarrow> log \<Rightarrow> log" where
  "spec_log hash number txHash i logIndex l =
     l\<lparr>BlockNumber := number, BlockHash := hash, TxHash := txHash, TxIndex := i, Index := logIndex\<rparr>"

definition spec_receipt ::
  "('tx \<Rightarrow> hash) \<Rightarrow> receiptLogs list \<Rightarrow> hash \<Rightarrow> u64 \<Rightarrow> 'tx list \<Rightarrow> nat \<Rightarrow> receiptLogs" where
  "spec_receipt txhash receipts hash number txs i =
     (receipts ! i)\<lparr>Logs :=
        map (\<lambda>j. spec_log hash number (if i < length txs then txhash (txs ! i) else hash) i
                    (logs_before receipts i + j) (Logs (receipts ! i) ! j))
            [0..<length (Logs (receipts ! i))]\<rparr>"

definition spec_derive ::
  "('tx \<Rightarrow> hash) \<Rightarrow> receiptLogs list \<Rightarrow> hash \<Rightarrow> u64 \<Rightarrow> 'tx list \<Rightarrow> receiptLogs list" where
  "spec_derive txhash receipts hash number txs =
     map (spec_receipt txhash receipts hash number txs) [0..<length receipts]"

definition count_ok :: "receiptLogs list \<Rightarrow> 'tx list \<Rightarrow> bool" where
  "count_ok receipts txs = (length receipts = length txs \<or> length receipts = length txs + 1)"

text \<open>
  The receipt at position \<open>m\<close> after the loop over the transactions that starts at
  transaction index \<open>i\<close> and log index \<open>k\<close>.
\<close>

definition stamped :: "('tx \<Rightarrow> hash) \<Rightarrow> hash \<Rightarrow> u64 \<Rightarrow> nat \<Rightarrow> nat \<Rightarrow> 'tx list \<Rightarrow> receiptLogs list \<Rightarrow> nat \<Rightarrow> receiptLogs" where
  "stamped H hash number i k txs rs m =
     (rs ! m)\<lparr>Logs := map (\<lambda>j. spec_log hash number (H (txs ! m)) (i + m) (k + logs_before rs m + j) (Logs (rs ! m) ! j))
                       [0..<length (Logs (rs ! m))]\<rparr>"

text \<open>
  A block of two transactions, known by their numbers 1 and 2, with three stored receipts
  that carry two logs, no log and one log.
\<close>

definition log0 :: log where
  "log0 = \<lparr>Address = [], Topics = [], Data = [], BlockNumber = 0, TxHash = [], TxIndex = 0,
      BlockHash = [], Index = 0, Removed = False\<rparr>"

definition receipts0 :: "receiptLogs list" where
  "receipts0 = [\<lparr>Logs = [log0, log0]\<rparr>, \<lparr>Logs = []\<rparr>, \<lparr>Logs = [log0]\<rparr>]"

definition txhash0 :: "nat \<Rightarrow> hash" where
  "txhash0 n = replicate 32 (word_of_nat n)"

definition derived0 :: "hash \<Rightarrow> nat \<Rightarrow> nat \<Rightarrow> log" where
  "derived0 txHash i logIndex =
     \<lparr>Address = [], Topics = [], Data = [], BlockNumber = 7, TxHash = txHash, TxIndex = i,
      BlockHash = hash0, Index = logIndex, Removed = False\<rparr>"


section \<open>Blocks and the bad-block list\<close>

text \<open>
  A block is known here by its header, its body and its difficulty. \<^verbatim>\<open>block.Hash()\<close> is
  the hash of the header, computed by a function of the header's content that is a
  parameter throughout, and \<^verbatim>\<open>block.NumberU64()\<close> is \<^verbatim>\<open>header.Number.Uint64()\<close>.
  \<^verbatim>\<open>big.Int.Uint64\<close> returns the low 64 bits of the magnitude. The type \<^verbatim>\<open>types.Block\<close> is
  not among the sources; the difficulty of a block is the one that section 4.4 of the
  specification speaks of, and only the batch commit to the ancient store reads it.
\<close>

record 'tx block =
  blockHeader :: header
  blockBody :: "'tx body"
  blockDifficulty :: int

definition bigUint64 :: "int \<Rightarrow> u64" where
  "bigUint64 x = word_of_int \<bar>x\<bar>"

definition NumberU64 :: "'tx block \<Rightarrow> u64" where
  "NumberU64 block = bigUint64 (Number (blockHeader block))"

definition badBlockToKeep :: nat where
  "badBlockToKeep = 10"

record 'tx badBlock =
  Header :: header
  Body :: "'tx body"

definition badBlockList_Less :: "'tx badBlock \<Rightarrow> 'tx badBlock \<Rightarrow> bool" where
  "badBlockList_Less a b = (bigUint64 (Number (Header a)) < bigUint64 (Number (Header b)))"

text \<open>
  \<^verbatim>\<open>sort.Reverse\<close> of the standard library wraps a list in one whose \<^verbatim>\<open>Less(i, j)\<close> is the
  \<^verbatim>\<open>Less(j, i)\<close> of the list.
\<close>

definition Reverse :: "('a \<Rightarrow> 'a \<Rightarrow> bool) \<Rightarrow> 'a \<Rightarrow> 'a \<Rightarrow> bool" where
  "Reverse lt a b = lt b a"

text \<open>
  \<^verbatim>\<open>sort.Sort\<close> is the standard library's; it is not stable, and which of two blocks of one
  number comes first is not fixed. The sorting function is a parameter that is given the
  \<^verbatim>\<open>Less\<close> of the list it sorts. What the library promises of it on a list: the result is a
  permutation of the list, and no element of the result is \<^verbatim>\<open>Less\<close> than an earlier one.
\<close>

definition sorts :: "(('a \<Rightarrow> 'a \<Rightarrow> bool) \<Rightarrow> 'a list \<Rightarrow> 'a list) \<Rightarrow> ('a \<Rightarrow> 'a \<Rightarrow> bool) \<Rightarrow> 'a list \<Rightarrow> bool" where
  "sorts srt lt xs =
     (mset (srt lt xs) = mset xs \<and> sorted_wrt (\<lambda>a b. \<not> lt b a) (srt lt xs))"

text \<open>
  The live store as a writer sees it. \<^verbatim>\<open>log.Crit\<close> ends the process: the result
  \<open>Inl (Fatal _)\<close>. The store of the model accepts every \<^verbatim>\<open>Put\<close>.
\<close>

definition Put :: "snapshot \<Rightarrow> bytes \<Rightarrow> bytes \<Rightarrow> snapshot" where
  "Put s key val = s\<lparr>live := (live s)(key := Found val)\<rparr>"

datatype fatal = Fatal string

text \<open>The first lines of \<^verbatim>\<open>WriteBadBlock\<close>: the list the store holds, empty when it holds none.\<close>

definition load_bad_blocks ::
  "(bytes \<Rightarrow> 'tx badBlock list option) \<Rightarrow> schema \<Rightarrow> snapshot \<Rightarrow> fatal + 'tx badBlock list" where
  "load_bad_blocks decode sc db =
     (let (blob, err) = Get db (badBlockKey sc) in
      if length blob > 0
      then (case decode blob of
              None \<Rightarrow> Inl (Fatal ''Failed to decode old bad blocks'')
            | Some badBlocks \<Rightarrow> Inr badBlocks)
      else Inr [])"

definition is_bad_block :: "(header \<Rightarrow> hash) \<Rightarrow> 'tx block \<Rightarrow> 'tx badBlock \<Rightarrow> bool" where
  "is_bad_block hashOf block b =
     (bigUint64 (Number (Header b)) = NumberU64 block \<and> hashOf (Header b) = hashOf (blockHeader block))"

definition WriteBadBlock ::
  "(('tx badBlock \<Rightarrow> 'tx badBlock \<Rightarrow> bool) \<Rightarrow> 'tx badBlock list \<Rightarrow> 'tx badBlock list)
     \<Rightarrow> ('tx badBlock list \<Rightarrow> bytes option)
     \<Rightarrow> (bytes \<Rightarrow> 'tx badBlock list option) \<Rightarrow> (header \<Rightarrow> hash) \<Rightarrow> schema \<Rightarrow> snapshot \<Rightarrow> 'tx block
     \<Rightarrow> fatal + snapshot" where
  "WriteBadBlock srt encode decode hashOf sc db block =
     (case load_bad_blocks decode sc db of
        Inl e \<Rightarrow> Inl e
      | Inr badBlocks \<Rightarrow>
          if list_ex (is_bad_block hashOf block) badBlocks then Inr db
          else
            let badBlocks = badBlocks @ [\<lparr>Header = blockHeader block, Body = blockBody block\<rparr>];
                badBlocks = srt (Reverse badBlockList_Less) badBlocks;
                badBlocks = (if length badBlocks > badBlockToKeep
                             then take badBlockToKeep badBlocks else badBlocks)
            in case encode badBlocks of
                 None \<Rightarrow> Inl (Fatal ''Failed to encode bad blocks'')
               | Some data \<Rightarrow> Inr (Put db (badBlockKey sc) data))"

text \<open>
  A list of bad blocks in descending order of the block numbers: the number of an entry is
  at least the number of every later entry. The invariant of the stored list: at most ten
  entries, in descending order of the block numbers, no two entries of one number and
  hash. The codec is assumed to return, for the list written, non-empty bytes that decode
  to the list.
\<close>

definition descending_by_number :: "'tx badBlock list \<Rightarrow> bool" where
  "descending_by_number xs =
     sorted_wrt (\<lambda>a b. bigUint64 (Number (Header a)) \<ge> bigUint64 (Number (Header b))) xs"

definition bad_key :: "(header \<Rightarrow> hash) \<Rightarrow> 'tx badBlock \<Rightarrow> u64 \<times> hash" where
  "bad_key hashOf b = (bigUint64 (Number (Header b)), hashOf (Header b))"

definition bad_block_inv :: "(header \<Rightarrow> hash) \<Rightarrow> 'tx badBlock list \<Rightarrow> bool" where
  "bad_block_inv hashOf xs =
     (length xs \<le> 10 \<and> descending_by_number xs \<and> distinct (map (bad_key hashOf) xs))"

definition round_trips ::
  "('tx badBlock list \<Rightarrow> bytes option) \<Rightarrow> (bytes \<Rightarrow> 'tx badBlock list option) \<Rightarrow> 'tx badBlock list \<Rightarrow> bool" where
  "round_trips encode decode xs =
     (case encode xs of None \<Rightarrow> False | Some data \<Rightarrow> data \<noteq> [] \<and> decode data = Some xs)"

definition bad_entry :: "'tx block \<Rightarrow> 'tx badBlock" where
  "bad_entry block = \<lparr>Header = blockHeader block, Body = blockBody block\<rparr>"

text \<open>
  A store that holds the bad blocks of heights 10 down to 1, under a codec that writes a
  list of such blocks as the bytes of the heights and a closing byte, a header hash that
  repeats the height, and a sorting function that sorts by insertion.
\<close>

definition header_at :: "int \<Rightarrow> header" where
  "header_at n = \<lparr>Number = n, ParentHash = [], HeaderRest = []\<rparr>"

definition empty_body :: "nat body" where
  "empty_body = \<lparr>Transactions = [], Randomness = [], EpochSnarkData = []\<rparr>"

definition bad_at :: "int \<Rightarrow> nat badBlock" where
  "bad_at n = \<lparr>Header = header_at n, Body = empty_body\<rparr>"

definition block_at :: "int \<Rightarrow> nat block" where
  "block_at n = \<lparr>blockHeader = header_at n, blockBody = empty_body, blockDifficulty = 1\<rparr>"

definition encode0 :: "nat badBlock list \<Rightarrow> bytes option" where
  "encode0 xs = Some (map (\<lambda>b. word_of_int (Number (Header b))) xs @ [0xFF])"

definition decode0 :: "bytes \<Rightarrow> nat badBlock list option" where
  "decode0 data = Some (map (\<lambda>w. bad_at (uint w)) (butlast data))"

definition hashOf0 :: "header \<Rightarrow> hash" where
  "hashOf0 h = replicate 32 (word_of_int (Number h))"

fun insert_by :: "('a \<Rightarrow> 'a \<Rightarrow> bool) \<Rightarrow> 'a \<Rightarrow> 'a list \<Rightarrow> 'a list" where
  "insert_by lt x [] = [x]"
| "insert_by lt x (y # ys) = (if lt x y then x # y # ys else y # insert_by lt x ys)"

definition sort0 :: "('a \<Rightarrow> 'a \<Rightarrow> bool) \<Rightarrow> 'a list \<Rightarrow> 'a list" where
  "sort0 lt xs = foldr (insert_by lt) xs []"

definition db10 :: snapshot where
  "db10 = \<lparr>ancients = (\<lambda>t n. None),
           live = (\<lambda>k. if k = badBlockKey schema0 then Found [10, 9, 8, 7, 6, 5, 4, 3, 2, 1, 0xFF]
                        else NotFound)\<rparr>"


section \<open>The batch commit to the ancient store\<close>

text \<open>
  What is appended to an ancient table: raw bytes (\<^verbatim>\<open>AppendRaw\<close>) or a value that the
  store encodes on the spot (\<^verbatim>\<open>Append\<close>), so that a value changed afterwards, like the
  running sum \<^verbatim>\<open>tdSum\<close>, is recorded as it was at the call. The write operation of the
  ancient store is a parameter: \<open>appendTo op kind number item\<close> returns the operation's next
  state or an error. The storage form of a receipt is a cast of the receipt.
\<close>

datatype ('tx, 'r) item =
    RawItem bytes
  | HeaderItem header
  | BodyItem "'tx body"
  | ReceiptsItem "'r list"
  | TdItem int

text \<open>
  The errors of \<^verbatim>\<open>writeAncientBlock\<close> wrap the store's error in a message that names the
  table and the block number; a read of \<^verbatim>\<open>receipts[i]\<close> past the end is a panic.
\<close>

datatype 'e write_failure = AppendFailed table u64 'e | ReceiptsOutOfRange nat

definition writeAncientBlock ::
  "('op \<Rightarrow> table \<Rightarrow> u64 \<Rightarrow> ('tx, 'r) item \<Rightarrow> 'e + 'op) \<Rightarrow> (header \<Rightarrow> hash)
     \<Rightarrow> 'op \<Rightarrow> 'tx block \<Rightarrow> header \<Rightarrow> 'r list \<Rightarrow> int \<Rightarrow> 'e write_failure + 'op" where
  "writeAncientBlock appendTo hashOf op block header receipts td =
     (let num = NumberU64 block in
      case appendTo op freezerHashTable num (RawItem (hashOf (blockHeader block))) of
        Inl err \<Rightarrow> Inl (AppendFailed freezerHashTable num err)
      | Inr op \<Rightarrow>
      (case appendTo op freezerHeaderTable num (HeaderItem header) of
        Inl err \<Rightarrow> Inl (AppendFailed freezerHeaderTable num err)
      | Inr op \<Rightarrow>
      (case appendTo op freezerBodiesTable num (BodyItem (blockBody block)) of
        Inl err \<Rightarrow> Inl (AppendFailed freezerBodiesTable num err)
      | Inr op \<Rightarrow>
      (case appendTo op freezerReceiptTable num (ReceiptsItem receipts) of
        Inl err \<Rightarrow> Inl (AppendFailed freezerReceiptTable num err)
      | Inr op \<Rightarrow>
      (case appendTo op freezerDifficultyTable num (TdItem td) of
        Inl err \<Rightarrow> Inl (AppendFailed freezerDifficultyTable num err)
      | Inr op \<Rightarrow> Inr op)))))"

text \<open>
  Modelled from the spec: \<^verbatim>\<open>block.TotalDifficulty()\<close>, which the loop of
  \<^verbatim>\<open>WriteAncientBlocks\<close> adds to its running sum, is a method of \<^verbatim>\<open>types.Block\<close>, and
  that type is not among the sources. Section 4.4 of the specification says of the batch
  commit that the "difficulty of block i is added to the running sum": the method returns
  the difficulty of the block it is called on.
\<close>

definition TotalDifficulty :: "'tx block \<Rightarrow> int" where
  "TotalDifficulty block = blockDifficulty block"

text \<open>The loop of \<^verbatim>\<open>WriteAncientBlocks\<close> from index \<open>i\<close> on, over the blocks left.\<close>

fun write_blocks ::
  "('op \<Rightarrow> table \<Rightarrow> u64 \<Rightarrow> ('tx, 'r) item \<Rightarrow> 'e + 'op) \<Rightarrow> (header \<Rightarrow> hash)
     \<Rightarrow> 'r list list \<Rightarrow> nat \<Rightarrow> int \<Rightarrow> 'op \<Rightarrow> 'tx block list \<Rightarrow> 'e write_failure + 'op" where
  "write_blocks appendTo hashOf receipts i tdSum op [] = Inr op"
| "write_blocks appendTo hashOf receipts i tdSum op (block # blocks) =
     (if i \<ge> length receipts then Inl (ReceiptsOutOfRange i)
      else
        let stReceipts = map (\<lambda>receipt. receipt) (receipts ! i);
            header = blockHeader block;
            tdSum = (if i > 0 then tdSum + TotalDifficulty block else tdSum)
        in case writeAncientBlock appendTo hashOf op block header stReceipts tdSum of
             Inl err \<Rightarrow> Inl err
           | Inr op \<Rightarrow> write_blocks appendTo hashOf receipts (i + 1) tdSum op blocks)"

text \<open>
  \<^verbatim>\<open>ModifyAncients\<close> of the ancient store, by its contract: it runs the function on the
  store; on an error the changes are reverted and the error is returned; otherwise the
  changes are kept and the sizeOf of what was written is returned.
\<close>

definition ModifyAncients ::
  "('op \<Rightarrow> int) \<Rightarrow> 'op \<Rightarrow> ('op \<Rightarrow> 'f + 'op) \<Rightarrow> ('f + int) \<times> 'op" where
  "ModifyAncients sizeOf db fn =
     (case fn db of Inl err \<Rightarrow> (Inl err, db) | Inr db' \<Rightarrow> (Inr (sizeOf db' - sizeOf db), db'))"

definition WriteAncientBlocks ::
  "('op \<Rightarrow> table \<Rightarrow> u64 \<Rightarrow> ('tx, 'r) item \<Rightarrow> 'e + 'op) \<Rightarrow> ('op \<Rightarrow> int) \<Rightarrow> (header \<Rightarrow> hash)
     \<Rightarrow> 'op \<Rightarrow> 'tx block list \<Rightarrow> 'r list list \<Rightarrow> int
     \<Rightarrow> ('e write_failure + int) \<times> 'op" where
  "WriteAncientBlocks appendTo sizeOf hashOf db blocks receipts td =
     (let tdSum = td in
      ModifyAncients sizeOf db
        (\<lambda>op. write_blocks appendTo hashOf receipts 0 tdSum op blocks))"

text \<open>
  The batch as the specification words it: for block \<open>i\<close>, in this order, the hash, the
  header, the body, the receipts and the total difficulty, which is the given one plus the
  difficulty of each of the blocks 1 to \<open>i\<close>; the appends are made one after the other and
  the first failure ends them.
\<close>

definition spec_td :: "int \<Rightarrow> 'tx block list \<Rightarrow> nat \<Rightarrow> int" where
  "spec_td td blocks i = td + sum_list (map blockDifficulty (take i (tl blocks)))"

definition spec_block_appends ::
  "(header \<Rightarrow> hash) \<Rightarrow> int \<Rightarrow> 'tx block list \<Rightarrow> 'r list list \<Rightarrow> nat
     \<Rightarrow> (table \<times> u64 \<times> ('tx, 'r) item) list" where
  "spec_block_appends hashOf td blocks receipts i =
     (let block = blocks ! i; num = NumberU64 block in
      [(freezerHashTable, num, RawItem (hashOf (blockHeader block))),
       (freezerHeaderTable, num, HeaderItem (blockHeader block)),
       (freezerBodiesTable, num, BodyItem (blockBody block)),
       (freezerReceiptTable, num, ReceiptsItem (receipts ! i)),
       (freezerDifficultyTable, num, TdItem (spec_td td blocks i))])"

definition spec_appends ::
  "(header \<Rightarrow> hash) \<Rightarrow> int \<Rightarrow> 'tx block list \<Rightarrow> 'r list list
     \<Rightarrow> (table \<times> u64 \<times> ('tx, 'r) item) list" where
  "spec_appends hashOf td blocks receipts =
     concat (map (spec_block_appends hashOf td blocks receipts) [0..<length blocks])"

fun run_appends ::
  "('op \<Rightarrow> table \<Rightarrow> u64 \<Rightarrow> ('tx, 'r) item \<Rightarrow> 'e + 'op) \<Rightarrow> 'op
     \<Rightarrow> (table \<times> u64 \<times> ('tx, 'r) item) list \<Rightarrow> 'e write_failure + 'op" where
  "run_appends appendTo op [] = Inr op"
| "run_appends appendTo op ((kind, num, x) # rest) =
     (case appendTo op kind num x of
        Inl err \<Rightarrow> Inl (AppendFailed kind num err)
      | Inr op' \<Rightarrow> run_appends appendTo op' rest)"

definition spec_batch ::
  "('op \<Rightarrow> table \<Rightarrow> u64 \<Rightarrow> ('tx, 'r) item \<Rightarrow> 'e + 'op) \<Rightarrow> ('op \<Rightarrow> int) \<Rightarrow> 'op
     \<Rightarrow> (table \<times> u64 \<times> ('tx, 'r) item) list \<Rightarrow> ('e write_failure + int) \<times> 'op" where
  "spec_batch appendTo sizeOf db appends =
     (case run_appends appendTo db appends of
        Inl err \<Rightarrow> (Inl err, db)
      | Inr db' \<Rightarrow> (Inr (sizeOf db' - sizeOf db), db'))"

text \<open>
  An ancient store that is the list of what was appended to it, refuses an append at
  number 0, and measures its size by the number of its items; a block of a given height
  and difficulty.
\<close>

definition appendTo0 ::
  "(table \<times> u64 \<times> (nat, nat) item) list \<Rightarrow> table \<Rightarrow> u64 \<Rightarrow> (nat, nat) item
     \<Rightarrow> string + (table \<times> u64 \<times> (nat, nat) item) list" where
  "appendTo0 op kind num x = (if num = 0 then Inl ''out of order'' else Inr (op @ [(kind, num, x)]))"

definition sizeOf0 :: "(table \<times> u64 \<times> (nat, nat) item) list \<Rightarrow> int" where
  "sizeOf0 op = int (length op)"

definition mined :: "int \<Rightarrow> int \<Rightarrow> nat block" where
  "mined n difficulty = \<lparr>blockHeader = header_at n, blockBody = empty_body, blockDifficulty = difficulty\<rparr>"


section \<open>Range queries over the live store\<close>

text \<open>
  The live store as an iterator sees it: its key/value pairs in ascending order of the
  keys, each key once. \<^verbatim>\<open>NewIterator(prefix, start)\<close> walks the pairs whose key has the
  prefix and is not below \<^verbatim>\<open>prefix+start\<close>, in that order.
\<close>

type_synonym iteratee = "(bytes \<times> bytes) list"

definition ordered :: "iteratee \<Rightarrow> bool" where
  "ordered db = sorted_wrt (<) (map fst db)"

definition has_prefix :: "bytes \<Rightarrow> bytes \<Rightarrow> bool" where
  "has_prefix prefix key = (take (length prefix) key = prefix)"

definition NewIterator :: "iteratee \<Rightarrow> bytes \<Rightarrow> bytes \<Rightarrow> (bytes \<times> bytes) list" where
  "NewIterator db prefix start = filter (\<lambda>(key, val). has_prefix prefix key \<and> prefix @ start \<le> key) db"

text \<open>
  The number and the hash that the range queries cut out of a key:
  \<^verbatim>\<open>key[len(headerPrefix) : len(headerPrefix)+8]\<close> and \<^verbatim>\<open>key[len(key)-32:]\<close>.
\<close>

definition key_number :: "schema \<Rightarrow> bytes \<Rightarrow> u64" where
  "key_number sc key = Uint64 (take 8 (drop (length (headerPrefix sc)) key))"

definition key_hash :: "bytes \<Rightarrow> hash" where
  "key_hash key = BytesToHash (drop (length key - 32) key)"

text \<open>
  The loop of \<^verbatim>\<open>ReadAllHashesInRange\<close> over the pairs the iterator has left. A
  \<^verbatim>\<open>NumberHash\<close> is the pair of its two fields.
\<close>

fun hashes_in_range_loop ::
  "schema \<Rightarrow> nat \<Rightarrow> u64 \<Rightarrow> (bytes \<times> bytes) list \<Rightarrow> (u64 \<times> hash) list \<Rightarrow> (u64 \<times> hash) list" where
  "hashes_in_range_loop sc keyLength last' [] hashes = hashes"
| "hashes_in_range_loop sc keyLength last' ((key, val) # it) hashes =
     (if length key \<noteq> keyLength then hashes_in_range_loop sc keyLength last' it hashes
      else
        let num = key_number sc key in
        if num > last' then hashes
        else
          let hash = key_hash key in
          hashes_in_range_loop sc keyLength last' it (hashes @ [(num, hash)]))"

text \<open>
  \<^verbatim>\<open>make([]*NumberHash, 0, 1+last-first)\<close> computes the capacity in \<^verbatim>\<open>uint64\<close>, and panics
  when it is more than the runtime grants; that bound is the parameter \<open>maxCap\<close>.
\<close>

definition ReadAllHashesInRange ::
  "nat \<Rightarrow> schema \<Rightarrow> iteratee \<Rightarrow> u64 \<Rightarrow> u64 \<Rightarrow> failure + (u64 \<times> hash) list" where
  "ReadAllHashesInRange maxCap sc db first last' =
     (let start = encodeBlockNumber first;
          keyLength = length (headerPrefix sc) + 8 + 32
      in if unat (1 + last' - first) > maxCap then Inl (Panic ''makeslice: cap out of range'')
         else Inr (hashes_in_range_loop sc keyLength last' (NewIterator db (headerPrefix sc) start) []))"

text \<open>The loop of \<^verbatim>\<open>ReadAllCanonicalHashes\<close>; \<^verbatim>\<open>limit\<close> is a signed \<^verbatim>\<open>int\<close>.\<close>

fun canonical_hashes_loop ::
  "schema \<Rightarrow> bytes \<Rightarrow> int \<Rightarrow> (bytes \<times> bytes) list \<Rightarrow> u64 list \<Rightarrow> hash list \<Rightarrow> u64 list \<times> hash list" where
  "canonical_hashes_loop sc end limit [] numbers hashes = (numbers, hashes)"
| "canonical_hashes_loop sc end limit ((key, val) # it) numbers hashes =
     (if key \<ge> end then (numbers, hashes)
      else if length key = length (headerPrefix sc) + 8 + 1
              \<and> drop (length key - 1) key = headerHashSuffix
      then
        let numbers = numbers @ [key_number sc key];
            hashes = hashes @ [BytesToHash val]
        in if int (length numbers) \<ge> limit then (numbers, hashes)
           else canonical_hashes_loop sc end limit it numbers hashes
      else canonical_hashes_loop sc end limit it numbers hashes)"

definition ReadAllCanonicalHashes ::
  "schema \<Rightarrow> iteratee \<Rightarrow> u64 \<Rightarrow> u64 \<Rightarrow> int \<Rightarrow> u64 list \<times> hash list" where
  "ReadAllCanonicalHashes sc db from to limit =
     (if limit = 0 then ([], [])
      else
        let start = headerHashKey sc from;
            end = headerHashKey sc to
        in canonical_hashes_loop sc end limit (NewIterator db [] start) [] [])"

text \<open>
  The two range queries as selections from the store. A header entry is a key of the
  header prefix, eight bytes and thirty-two more; a canonical entry is a key of the header
  prefix, eight bytes and the suffix byte.
\<close>

definition is_header_entry :: "schema \<Rightarrow> bytes \<Rightarrow> bool" where
  "is_header_entry sc key =
     (has_prefix (headerPrefix sc) key \<and> length key = length (headerPrefix sc) + 8 + 32)"

definition spec_hashes_in_range :: "schema \<Rightarrow> iteratee \<Rightarrow> u64 \<Rightarrow> u64 \<Rightarrow> (u64 \<times> hash) list" where
  "spec_hashes_in_range sc db first last' =
     map (\<lambda>(key, val). (key_number sc key, key_hash key))
       (filter (\<lambda>(key, val). is_header_entry sc key \<and> first \<le> key_number sc key
                  \<and> key_number sc key \<le> last') db)"

definition is_canonical_entry :: "schema \<Rightarrow> bytes \<Rightarrow> bool" where
  "is_canonical_entry sc key =
     (has_prefix (headerPrefix sc) key \<and> length key = length (headerPrefix sc) + 8 + 1
      \<and> drop (length key - 1) key = headerHashSuffix)"

definition spec_canonical_hashes :: "schema \<Rightarrow> iteratee \<Rightarrow> u64 \<Rightarrow> u64 \<Rightarrow> (u64 \<times> hash) list" where
  "spec_canonical_hashes sc db from to =
     map (\<lambda>(key, val). (key_number sc key, BytesToHash val))
       (filter (\<lambda>(key, val). is_canonical_entry sc key \<and> from \<le> key_number sc key
                  \<and> key_number sc key < to) db)"

text \<open>
  A store with the headers of heights 6 to 8, two of them at height 7 (a fork), and the
  canonical entries of these heights.
\<close>

definition forked_db :: iteratee where
  "forked_db =
     [(headerKey schema0 6 (replicate 32 3), data0),
      (headerHashKey schema0 6, replicate 32 3),
      (headerKey schema0 7 (replicate 32 1), data0),
      (headerKey schema0 7 (replicate 32 2), data0),
      (headerHashKey schema0 7, replicate 32 1),
      (headerKey schema0 8 (replicate 32 4), data0),
      (headerHashKey schema0 8, replicate 32 4)]"


text \<open>The test the loop of \<^verbatim>\<open>ReadAllCanonicalHashes\<close> makes on a key, by itself.\<close>

definition canonical_shape :: "schema \<Rightarrow> bytes \<Rightarrow> bool" where
  "canonical_shape sc key =
     (length key = length (headerPrefix sc) + 8 + 1 \<and> drop (length key - 1) key = headerHashSuffix)"

text \<open>A store that holds the canonical entries of the heights 10 to 20 and nothing else.\<close>

definition chain_db :: iteratee where
  "chain_db =
     map (\<lambda>n. (headerHashKey schema0 (word_of_nat n), replicate 32 (word_of_nat n))) [10..<21]"


section \<open>The common ancestor of two headers\<close>















section \<open>Properties of the read path\<close>

lemma Ancient_fst: "fst (Ancient s t n) = (case ancients s t n of None \<Rightarrow> [] | Some d \<Rightarrow> d)"
  by (simp add: Ancient_def split: option.splits)

lemma Get_fst: "fst (Get s k) = (case live s k of Found v \<Rightarrow> v | NotFound \<Rightarrow> [] | Failed \<Rightarrow> [])"
  by (simp add: Get_def split: kv_result.splits)

lemma read_rlp_spec_read:
  "read_rlp k sc db hash number = spec_read db (table_of k) (key_of k sc number hash) hash number"
  by (cases k)
     (auto simp: ReadBodyRLP_def ReadReceiptsRLP_def ReadTdRLP_def spec_read_def
        spec_ancient_probe_def spec_live_probe_def canonical_hash_matches_def Ancient_fst Get_fst Let_def
        split: option.splits kv_result.splits)

lemma spec_read_empty_iff:
  "spec_read db tbl key hash number = [] \<longleftrightarrow>
     spec_ancient_probe (db 0) (db 1) tbl hash number = None
     \<and> spec_live_probe (db 2) key = None
     \<and> spec_ancient_probe (db 3) (db 4) tbl hash number = None"
  by (auto simp: spec_read_def spec_ancient_probe_def spec_live_probe_def
        split: option.splits kv_result.splits if_splits)

lemma spec_read_stored:
  assumes ao: "append_only db number"
    and st: "\<And>i. stored (db i) tbl key number hash d"
    and ne: "d \<noteq> []"
  shows "spec_read db tbl key hash number = d"
proof -
  have keep: "ancients (db i) t number = Some x \<Longrightarrow> ancients (db (Suc i)) t number = Some x" for i t x
    using ao unfolding append_only_def by (metis option.distinct(1))
  show ?thesis
  proof (cases "spec_ancient_probe (db 0) (db 1) tbl hash number")
    case (Some x)
    then have x0: "ancients (db 0) tbl number = Some x" and m1: "canonical_hash_matches (db 1) number hash"
      by (auto simp: spec_ancient_probe_def split: option.splits if_splits)
    from keep[OF x0] have "ancients (db 1) tbl number = Some x" by simp
    with m1 st[of 1] have "x = d" by (auto simp: stored_def)
    with Some show ?thesis by (simp add: spec_read_def)
  next
    case None
    note p1 = None
    show ?thesis
    proof (cases "live (db 2) key = Found d")
      case True
      with ne p1 show ?thesis by (simp add: spec_read_def spec_live_probe_def)
    next
      case False
      with st[of 2] have nf: "live (db 2) key = NotFound" and fr: "frozen (db 2) tbl number hash d"
        by (auto simp: stored_def)
      from fr obtain h where t2: "ancients (db 2) tbl number = Some d"
        and h2: "ancients (db 2) freezerHashTable number = Some h"
        and m2: "canonical_hash_matches (db 2) number hash"
        by (auto simp: frozen_def)
      have t3: "ancients (db 3) tbl number = Some d" using keep[OF t2] by (simp add: numeral_3_eq_3)
      have h3: "ancients (db 3) freezerHashTable number = Some h" using keep[OF h2] by (simp add: numeral_3_eq_3)
      have h4: "ancients (db 4) freezerHashTable number = Some h" using keep[OF h3]
        by (simp add: eval_nat_numeral)
      have m4: "canonical_hash_matches (db 4) number hash"
        using m2 h2 h4 by (simp add: canonical_hash_matches_def)
      show ?thesis using p1 nf t3 m4 ne
        by (simp add: spec_read_def spec_live_probe_def spec_ancient_probe_def)
    qed
  qed
qed

text \<open>
  Claim C1. Each read of a body, a receipt list or a total difficulty by (hash, number) is
  the three-step read of section 4.2: the ancient table at the number, accepted only when
  the canonical-hash entry at the number is the requested hash; on a miss the live store
  under the hash-qualified key; on a miss again the ancient store once more, with the same
  check. The result is empty exactly when all three probes miss. Hence a record that every
  snapshot of the call stores, in the live store or frozen under its own hash in an
  append-only ancient store, is returned, whenever the freezer moves it.
\<close>

theorem hash_verified_reads_probe_order:
  "read_rlp k sc db hash number = spec_read db (table_of k) (key_of k sc number hash) hash number
   \<and> (read_rlp k sc db hash number = [] \<longleftrightarrow>
        spec_ancient_probe (db 0) (db 1) (table_of k) hash number = None
        \<and> spec_live_probe (db 2) (key_of k sc number hash) = None
        \<and> spec_ancient_probe (db 3) (db 4) (table_of k) hash number = None)
   \<and> (append_only db number
        \<and> (\<forall>i. stored (db i) (table_of k) (key_of k sc number hash) number hash d)
        \<and> d \<noteq> []
       \<longrightarrow> read_rlp k sc db hash number = d)"
  using spec_read_stored [of db number "table_of k" "key_of k sc number hash" hash d]
  by (simp add: read_rlp_spec_read spec_read_empty_iff)

lemma stored_live_only:
  "stored live_only (table_of k) (key_of k schema0 7 hash0) 7 hash0 data0"
  by (cases k) (simp_all add: stored_def frozen_def live_only_def canonical_hash_matches_def
      BytesToHash_def HashLength_def hash0_def)

lemma stored_ancient_only:
  "stored ancient_only (table_of k) key 7 hash0 data0"
  by (cases k) (simp_all add: stored_def frozen_def ancient_only_def canonical_hash_matches_def
      BytesToHash_def HashLength_def hash0_def)

lemma append_only_moved_before: "append_only (moved_before k) 7"
  by (simp add: append_only_def moved_before_def live_only_def)

text \<open>
  The block is moved after the first ancient probe and before the live probe: the second
  ancient probe finds it.
\<close>

theorem hash_verified_reads_probe_order_witness:
  "ReadBodyRLP schema0 (moved_before 2) hash0 7 = data0
   \<and> ReadReceiptsRLP schema0 (moved_before 2) hash0 7 = data0
   \<and> ReadTdRLP schema0 (moved_before 2) hash0 7 = data0"
proof -
  have ao: "append_only (moved_before 2) 7" by (rule append_only_moved_before)
  have st: "\<forall>i. stored (moved_before 2 i) (table_of k) (key_of k schema0 7 hash0) 7 hash0 data0" for k
    by (simp add: moved_before_def stored_live_only stored_ancient_only)
  have ne: "data0 \<noteq> []" by (simp add: data0_def)
  have "read_rlp k schema0 (moved_before 2) hash0 7 = data0" for k
    using hash_verified_reads_probe_order [of k schema0 "moved_before 2" hash0 7 data0] ao st ne
    by blast
  from this [of BodyKind] this [of ReceiptsKind] this [of TdKind] show ?thesis by simp
qed

text \<open>
  Claim C10. The header read compares no hash: when the ancient header table holds data at
  the number, \<^verbatim>\<open>ReadHeaderRLP\<close> returns it for every requested hash, and \<^verbatim>\<open>ReadHeader\<close>
  returns whatever it decodes to.
\<close>

theorem header_read_skips_hash_check:
  "ancients (db 0) freezerHeaderTable number = Some d \<and> d \<noteq> [] \<longrightarrow>
     ReadHeaderRLP sc db hash number = d \<and> ReadHeader decode sc db hash number = decode d"
  by (auto simp: ReadHeaderRLP_def ReadHeader_def Ancient_def Let_def split: option.splits)

text \<open>
  The canonical block at height 7 has hash \<open>hash0\<close>; asked for the all-zero hash at height
  7, the header read returns the canonical header.
\<close>

theorem header_read_skips_hash_check_witness:
  "ReadHeaderRLP schema0 (still ancient_only) (replicate 32 0) 7 = data0
   \<and> ReadHeader decode_header0 schema0 (still ancient_only) (replicate 32 0) 7 = Some header0
   \<and> BytesToHash (fst (Ancient ancient_only freezerHashTable 7)) \<noteq> replicate 32 0"
proof -
  have a: "ancients (still ancient_only 0) freezerHeaderTable 7 = Some data0 \<and> data0 \<noteq> []"
    by (simp add: still_def ancient_only_def data0_def)
  have h: "BytesToHash (fst (Ancient ancient_only freezerHashTable 7)) \<noteq> replicate 32 0"
    by (simp add: Ancient_def ancient_only_def BytesToHash_def HashLength_def hash0_def)
  from header_read_skips_hash_check [of "still ancient_only" 7 data0 schema0 "replicate 32 0" decode_header0] a h
  show ?thesis by (simp add: decode_header0_def)
qed

text \<open>
  Claim C9. Each decoded read returns nil exactly when the raw read finds nothing or the
  bytes found do not decode: one and the same value in both cases, and no error value
  anywhere in the result type.
\<close>

theorem corrupt_reads_as_missing:
  "(ReadHeader decodeHeader sc db hash number = None \<longleftrightarrow>
      ReadHeaderRLP sc db hash number = [] \<or> decodeHeader (ReadHeaderRLP sc db hash number) = None)
   \<and> (ReadBody decodeBody sc db hash number = None \<longleftrightarrow>
      ReadBodyRLP sc db hash number = [] \<or> decodeBody (ReadBodyRLP sc db hash number) = None)
   \<and> (ReadRawReceipts decodeReceipts sc db hash number = None \<longleftrightarrow>
      ReadReceiptsRLP sc db hash number = [] \<or> decodeReceipts (ReadReceiptsRLP sc db hash number) = None)
   \<and> (ReadTd decodeTd sc db hash number = None \<longleftrightarrow>
      ReadTdRLP sc db hash number = [] \<or> decodeTd (ReadTdRLP sc db hash number) = None)"
  by (simp add: ReadHeader_def ReadBody_def ReadRawReceipts_def ReadTd_def Let_def split: option.splits)

text \<open>
  Claim C2. \<^verbatim>\<open>HasHeader\<close>, \<^verbatim>\<open>HasBody\<close> and \<^verbatim>\<open>HasReceipts\<close> make two probes, the
  canonical-hash table and then the live store, and never return to the ancient store:
  their answer is fixed by the snapshots of the first two store accesses.
\<close>

theorem existence_checks_two_probes:
  "HasHeader sc db hash number = two_probe_check db (headerKey sc number hash) hash number
   \<and> HasBody sc db hash number = two_probe_check db (blockBodyKey sc number hash) hash number
   \<and> HasReceipts sc db hash number = two_probe_check db (blockReceiptsKey sc number hash) hash number"
  by (auto simp: HasHeader_def HasBody_def HasReceipts_def two_probe_check_def Ancient_def Has_def
      canonical_hash_matches_def split: option.splits kv_result.splits)

text \<open>
  For the block that every snapshot stores and that the freezer moves between the two
  probes, the three checks answer false, where the raw reads, which probe the ancient store
  again, find the block.
\<close>

theorem existence_checks_two_probes_witness:
  "(\<forall>i. stored (moved_before 1 i) freezerHeaderTable (headerKey schema0 7 hash0) 7 hash0 data0)
   \<and> HasHeader schema0 (moved_before 1) hash0 7 = False
   \<and> HasBody schema0 (moved_before 1) hash0 7 = False
   \<and> HasReceipts schema0 (moved_before 1) hash0 7 = False
   \<and> ReadHeaderRLP schema0 (moved_before 1) hash0 7 = data0
   \<and> ReadBodyRLP schema0 (moved_before 2) hash0 7 = data0
   \<and> ReadReceiptsRLP schema0 (moved_before 2) hash0 7 = data0"
proof -
  have s: "\<forall>i. stored (moved_before 1 i) freezerHeaderTable (headerKey schema0 7 hash0) 7 hash0 data0"
    by (simp add: moved_before_def stored_def frozen_def live_only_def ancient_only_def
        canonical_hash_matches_def BytesToHash_def HashLength_def hash0_def)
  have c: "two_probe_check (moved_before 1) key hash0 7 = False" for key
    by (simp add: two_probe_check_def moved_before_def live_only_def ancient_only_def)
  have h: "HasHeader schema0 (moved_before 1) hash0 7 = False"
    "HasBody schema0 (moved_before 1) hash0 7 = False"
    "HasReceipts schema0 (moved_before 1) hash0 7 = False"
    using existence_checks_two_probes [of schema0 "moved_before 1" hash0 7] c by simp_all
  have r: "ReadHeaderRLP schema0 (moved_before 1) hash0 7 = data0"
    by (simp add: ReadHeaderRLP_def moved_before_def Ancient_def Get_def live_only_def
        ancient_only_def data0_def)
  have b: "ReadBodyRLP schema0 (moved_before 2) hash0 7 = data0"
    "ReadReceiptsRLP schema0 (moved_before 2) hash0 7 = data0"
    by (simp_all add: ReadBodyRLP_def ReadReceiptsRLP_def moved_before_def Ancient_def Get_def live_only_def
        ancient_only_def data0_def BytesToHash_def HashLength_def hash0_def)
  from s h r b show ?thesis by simp
qed

section \<open>Properties of the log metadata\<close>

lemma upt_0_Suc_map: "[0..<Suc n] = 0 # map Suc [0..<n]"
  by (simp add: upt_conv_Cons map_Suc_upt del: upt_Suc)

lemma derive_logs_eq:
  "derive_logs hash number th i k ls =
     (map (\<lambda>j. spec_log hash number th i (k + j) (ls ! j)) [0..<length ls], k + length ls)"
proof (induction ls arbitrary: k)
  case Nil
  show ?case by simp
next
  case (Cons l ls)
  show ?case
    by (simp add: Cons.IH upt_0_Suc_map spec_log_def comp_def del: upt_Suc)
qed

lemma logs_before_0: "logs_before rs 0 = 0"
  by (simp add: logs_before_def)

lemma logs_before_Cons_Suc: "logs_before (r # rs) (Suc m) = length (Logs r) + logs_before rs m"
  by (simp add: logs_before_def)

lemma stamped_Cons_Suc:
  "stamped H hash number i k (tx # txs) (r # rs) (Suc m) =
     stamped H hash number (Suc i) (k + length (Logs r)) txs rs m"
  by (simp add: stamped_def logs_before_Cons_Suc add.assoc)

lemma derive_txs_eq:
  "length txs \<le> length rs \<Longrightarrow>
   derive_txs H hash number i k txs rs =
     Inr (map (stamped H hash number i k txs rs) [0..<length txs] @ drop (length txs) rs,
          k + logs_before rs (length txs))"
proof (induction txs arbitrary: rs i k)
  case Nil
  show ?case by (simp add: logs_before_0)
next
  case (Cons tx txs)
  then obtain r rs' where rs: "rs = r # rs'" by (cases rs) auto
  with Cons.prems have le: "length txs \<le> length rs'" by simp
  have hd: "stamped H hash number i k (tx # txs) (r # rs') 0 =
      r\<lparr>Logs := map (\<lambda>j. spec_log hash number (H tx) i (k + j) (Logs r ! j)) [0..<length (Logs r)]\<rparr>"
    by (simp add: stamped_def logs_before_0)
  show ?case
    unfolding rs
    by (simp add: derive_logs_eq Cons.IH [OF le] upt_0_Suc_map comp_def stamped_Cons_Suc hd
        logs_before_Cons_Suc add.assoc del: upt_Suc)
qed

lemma stamped_spec_receipt:
  "m < length txs \<Longrightarrow> stamped H hash number 0 0 txs rs m = spec_receipt H rs hash number txs m"
  by (simp add: stamped_def spec_receipt_def)

lemma deriveLogFields_spec:
  "deriveLogFields H rs hash number txs =
     (if count_ok rs txs then Inr (spec_derive H rs hash number txs)
      else Inl (Error ''transaction and receipt count mismatch''))"
proof (cases "count_ok rs txs")
  case False
  then show ?thesis by (auto simp: deriveLogFields_def count_ok_def)
next
  case True
  then have le: "length txs \<le> length rs" by (auto simp: count_ok_def)
  let ?pre = "map (stamped H hash number 0 0 txs rs) [0..<length txs]"
  have pre: "?pre = map (spec_receipt H rs hash number txs) [0..<length txs]"
    by (simp add: stamped_spec_receipt)
  from True consider (same) "length rs = length txs" | (extra) "length rs = Suc (length txs)"
    by (auto simp: count_ok_def)
  then show ?thesis
  proof cases
    case same
    then show ?thesis
      using True by (simp add: deriveLogFields_def derive_txs_eq [OF le] pre spec_derive_def)
  next
    case extra
    then have dr: "drop (length txs) rs = [rs ! length txs]"
      by (metis Cons_nth_drop_Suc drop_all lessI order_refl)
    have last: "spec_receipt H rs hash number txs (length txs) =
        (rs ! length txs)\<lparr>Logs := fst (derive_logs hash number hash (length txs)
            (logs_before rs (length txs)) (Logs (rs ! length txs)))\<rparr>"
      by (simp add: spec_receipt_def derive_logs_eq)
    have "deriveLogFields H rs hash number txs =
        Inr (?pre @ [spec_receipt H rs hash number txs (length txs)])"
      using extra
      by (simp add: deriveLogFields_def derive_txs_eq [OF le] dr last nth_append Let_def
          list_update_append split: prod.splits)
    also have "?pre @ [spec_receipt H rs hash number txs (length txs)] = spec_derive H rs hash number txs"
      using extra by (simp add: pre spec_derive_def)
    finally show ?thesis using True by simp
  qed
qed

lemma Index_spec_receipt:
  "map Index (Logs (spec_receipt H rs hash number txs i)) =
     [logs_before rs i..<logs_before rs i + length (Logs (rs ! i))]"
proof -
  have "map Index (Logs (spec_receipt H rs hash number txs i)) =
      map (\<lambda>j. logs_before rs i + j) [0..<length (Logs (rs ! i))]"
    by (simp add: spec_receipt_def spec_log_def comp_def)
  also have "\<dots> = [logs_before rs i..<logs_before rs i + length (Logs (rs ! i))]"
    using map_add_upt [of "logs_before rs i" "length (Logs (rs ! i))"] by (simp add: add.commute)
  finally show ?thesis .
qed

lemma logs_before_Suc:
  "i < length rs \<Longrightarrow> logs_before rs (Suc i) = logs_before rs i + length (Logs (rs ! i))"
  by (simp add: logs_before_def take_Suc_conv_app_nth)

lemma Index_prefix:
  "n \<le> length rs \<Longrightarrow>
   map Index (concat (map (\<lambda>i. Logs (spec_receipt H rs hash number txs i)) [0..<n])) = [0..<logs_before rs n]"
proof (induction n)
  case 0
  show ?case by (simp add: logs_before_0)
next
  case (Suc n)
  then have n: "n < length rs" by simp
  have "[0..<logs_before rs n] @ [logs_before rs n..<logs_before rs n + length (Logs (rs ! n))] =
      [0..<logs_before rs (Suc n)]"
    using upt_add_eq_append [of 0 "logs_before rs n" "length (Logs (rs ! n))"]
    by (simp only: logs_before_Suc [OF n] le0 add_0)
  with Suc show ?case by (simp add: Index_spec_receipt)
qed

lemma logs_before_all: "logs_before rs (length rs) = length (concat (map Logs rs))"
  by (simp add: logs_before_def length_concat comp_def)

lemma Index_spec_derive:
  "map Index (concat (map Logs (spec_derive H rs hash number txs))) = [0..<length (concat (map Logs rs))]"
  using Index_prefix [of "length rs" rs H hash number txs]
  by (simp add: spec_derive_def comp_def logs_before_all)

lemma ReadLogs_mismatch:
  assumes "decodeReceipts (ReadReceiptsRLP sc db hash number) = Some receipts"
    and "ReadBody decodeBody sc (later 5 db) hash number = Some b"
    and "\<not> count_ok receipts (Transactions b)"
  shows "ReadLogs decodeReceipts decodeBody txhash sc db hash number = None"
  using assms by (simp add: ReadLogs_def Let_def deriveLogFields_spec)

text \<open>
  Claim C3. \<^verbatim>\<open>deriveLogFields\<close> succeeds exactly when the number of receipts is the number
  of transactions or one more. On success every log of every receipt carries the block
  number, the block hash, the hash and the index of its transaction, and the number of logs
  before it in the block as its log index, so that the log indices of the block, read in
  order, are 0, 1, 2, ... without a gap; the logs of a receipt past the last transaction
  carry the block hash as transaction hash and the number of transactions as index. On any
  other count the result is the error "transaction and receipt count mismatch", and
  \<^verbatim>\<open>ReadLogs\<close> returns nil.
\<close>

theorem derive_log_fields_counts_and_indices:
  "deriveLogFields txhash receipts hash number txs =
     (if count_ok receipts txs then Inr (spec_derive txhash receipts hash number txs)
      else Inl (Error ''transaction and receipt count mismatch''))
   \<and> map Index (concat (map Logs (spec_derive txhash receipts hash number txs))) =
       [0..<length (concat (map Logs receipts))]
   \<and> (decodeReceipts (ReadReceiptsRLP sc db hash number) = Some stored_receipts
        \<and> ReadBody decodeBody sc (later 5 db) hash number = Some b
        \<and> \<not> count_ok stored_receipts (Transactions b)
       \<longrightarrow> ReadLogs decodeReceipts decodeBody txhash sc db hash number = None)"
  using ReadLogs_mismatch [of decodeReceipts sc db hash number stored_receipts decodeBody b txhash]
  by (simp add: deriveLogFields_spec Index_spec_derive)

lemma spec_derive_receipts0:
  "spec_derive txhash0 receipts0 hash0 7 [1, 2] =
     [\<lparr>Logs = [derived0 (txhash0 1) 0 0, derived0 (txhash0 1) 0 1]\<rparr>,
      \<lparr>Logs = []\<rparr>,
      \<lparr>Logs = [derived0 hash0 2 2]\<rparr>]"
  by (simp add: spec_derive_def spec_receipt_def receipts0_def logs_before_def spec_log_def
      log0_def derived0_def upt_conv_Cons)

text \<open>
  Two transactions and three receipts: the third receipt is the block's own. One
  transaction and three receipts: the error, and nil from \<^verbatim>\<open>ReadLogs\<close>.
\<close>

theorem derive_log_fields_counts_and_indices_witness:
  "deriveLogFields txhash0 receipts0 hash0 7 [1, 2] =
     Inr [\<lparr>Logs = [derived0 (txhash0 1) 0 0, derived0 (txhash0 1) 0 1]\<rparr>,
          \<lparr>Logs = []\<rparr>,
          \<lparr>Logs = [derived0 hash0 2 2]\<rparr>]
   \<and> deriveLogFields txhash0 receipts0 hash0 7 [1] = Inl (Error ''transaction and receipt count mismatch'')
   \<and> ReadLogs (\<lambda>data. Some receipts0)
        (\<lambda>data. Some \<lparr>Transactions = [1], Randomness = [], EpochSnarkData = []\<rparr>)
        txhash0 schema0 (still live_only) hash0 7 = None"
proof -
  let ?dr = "\<lambda>data :: bytes. Some receipts0"
  let ?b = "\<lparr>Transactions = [1 :: nat], Randomness = [], EpochSnarkData = []\<rparr>"
  let ?db = "\<lambda>data :: bytes. Some ?b"
  have ok: "count_ok receipts0 [1 :: nat, 2]" and bad: "\<not> count_ok receipts0 [1 :: nat]"
    by (simp_all add: count_ok_def receipts0_def)
  have d: "?dr (ReadReceiptsRLP schema0 (still live_only) hash0 7) = Some receipts0" by simp
  have "ReadBodyRLP schema0 (later 5 (still live_only)) hash0 7 = data0"
    by (simp add: ReadBodyRLP_def later_def still_def Ancient_def Get_def live_only_def data0_def)
  then have rb: "ReadBody ?db schema0 (later 5 (still live_only)) hash0 7 = Some ?b"
    by (simp add: ReadBody_def data0_def)
  have bad': "\<not> count_ok receipts0 (Transactions ?b)" using bad by simp
  from derive_log_fields_counts_and_indices [of txhash0 receipts0 hash0 7 "[1, 2]"] ok
  have 1: "deriveLogFields txhash0 receipts0 hash0 7 [1, 2] = Inr (spec_derive txhash0 receipts0 hash0 7 [1, 2])"
    by simp
  from derive_log_fields_counts_and_indices [of txhash0 receipts0 hash0 7 "[1]"] bad
  have 2: "deriveLogFields txhash0 receipts0 hash0 7 [1] = Inl (Error ''transaction and receipt count mismatch'')"
    by simp
  from derive_log_fields_counts_and_indices [of txhash0 receipts0 hash0 7 "[1]" ?dr schema0
      "still live_only" receipts0 ?db ?b] d rb bad'
  have 3: "ReadLogs ?dr ?db txhash0 schema0 (still live_only) hash0 7 = None"
    by blast
  from 1 2 3 show ?thesis by (simp only: spec_derive_receipts0 simp_thms)
qed

section \<open>Properties of the bad-block list\<close>

lemma load_after_Put:
  "data \<noteq> [] \<Longrightarrow> decode data = Some xs \<Longrightarrow> load_bad_blocks decode sc (Put db (badBlockKey sc) data) = Inr xs"
  by (simp add: load_bad_blocks_def Put_def Get_def)

lemma descending_by_number_take: "descending_by_number xs \<Longrightarrow> descending_by_number (take n xs)"
  unfolding descending_by_number_def by (rule sorted_wrt_take)

lemma sorts_descending:
  assumes "sorts srt (Reverse badBlockList_Less) xs"
  shows "descending_by_number (srt (Reverse badBlockList_Less) xs)"
proof -
  from assms
  have "sorted_wrt (\<lambda>a b. \<not> Reverse badBlockList_Less b a) (srt (Reverse badBlockList_Less) xs)"
    by (simp add: sorts_def)
  moreover have "(\<lambda>a b :: 'a badBlock. \<not> Reverse badBlockList_Less b a) =
      (\<lambda>a b. bigUint64 (Number (Header a)) \<ge> bigUint64 (Number (Header b)))"
    by (simp add: Reverse_def badBlockList_Less_def not_less)
  ultimately show ?thesis by (simp add: descending_by_number_def)
qed

lemma list_ex_is_bad_block:
  "list_ex (is_bad_block hashOf block) xs \<longleftrightarrow> bad_key hashOf (bad_entry block) \<in> set (map (bad_key hashOf) xs)"
  by (force simp: list_ex_iff is_bad_block_def bad_key_def bad_entry_def NumberU64_def)

lemma distinct_keys_sorted:
  assumes "mset ys = mset (xs @ [e])" and "distinct (map f xs)" and "f e \<notin> set (map f xs)"
  shows "distinct (map f ys)"
proof -
  have "mset (map f ys) = mset (map f (xs @ [e]))" using assms(1) by (metis mset_map)
  moreover have "distinct (map f (xs @ [e]))" using assms(2,3) by simp
  ultimately show ?thesis by (metis mset_eq_imp_distinct_iff)
qed

lemma WriteBadBlock_new:
  assumes ld: "load_bad_blocks decode sc db = Inr old"
    and nd: "\<not> list_ex (is_bad_block hashOf block) old"
    and rt: "round_trips encode decode (take 10 (srt (Reverse badBlockList_Less) (old @ [bad_entry block])))"
  shows "\<exists>db'. WriteBadBlock srt encode decode hashOf sc db block = Inr db'
       \<and> load_bad_blocks decode sc db' = Inr (take 10 (srt (Reverse badBlockList_Less) (old @ [bad_entry block])))"
proof -
  let ?s = "srt (Reverse badBlockList_Less) (old @ [bad_entry block])"
  let ?new = "take 10 ?s"
  from rt obtain data where e: "encode ?new = Some data" and ne: "data \<noteq> []" and d: "decode data = Some ?new"
    by (auto simp: round_trips_def split: option.splits)
  have tk: "(if length ?s > badBlockToKeep then take badBlockToKeep ?s else ?s) = ?new"
    by (simp add: badBlockToKeep_def)
  have "WriteBadBlock srt encode decode hashOf sc db block =
      (case encode (if length ?s > badBlockToKeep then take badBlockToKeep ?s else ?s) of
         None \<Rightarrow> Inl (Fatal ''Failed to encode bad blocks'')
       | Some data \<Rightarrow> Inr (Put db (badBlockKey sc) data))"
    using ld nd by (simp add: WriteBadBlock_def Let_def bad_entry_def)
  then have "WriteBadBlock srt encode decode hashOf sc db block = Inr (Put db (badBlockKey sc) data)"
    unfolding tk using e by simp
  moreover have "load_bad_blocks decode sc (Put db (badBlockKey sc) data) = Inr ?new"
    using ne d by (rule load_after_Put)
  ultimately show ?thesis by simp
qed

lemma WriteBadBlock_duplicate:
  assumes "load_bad_blocks decode sc db = Inr old" and "list_ex (is_bad_block hashOf block) old"
  shows "WriteBadBlock srt encode decode hashOf sc db block = Inr db"
  using assms by (simp add: WriteBadBlock_def)

lemma new_list_inv:
  assumes so: "sorts srt (Reverse badBlockList_Less) (old @ [bad_entry block])"
    and nd: "\<not> list_ex (is_bad_block hashOf block) old"
  shows "length (take 10 (srt (Reverse badBlockList_Less) (old @ [bad_entry block]))) \<le> 10"
    and "descending_by_number (take 10 (srt (Reverse badBlockList_Less) (old @ [bad_entry block])))"
    and "distinct (map (bad_key hashOf) old) \<Longrightarrow>
         distinct (map (bad_key hashOf) (take 10 (srt (Reverse badBlockList_Less) (old @ [bad_entry block]))))"
proof -
  let ?s = "srt (Reverse badBlockList_Less) (old @ [bad_entry block])"
  show "length (take 10 ?s) \<le> 10" by simp
  from so have "descending_by_number ?s" by (rule sorts_descending)
  then show "descending_by_number (take 10 ?s)" by (rule descending_by_number_take)
  assume d: "distinct (map (bad_key hashOf) old)"
  from so have m: "mset ?s = mset (old @ [bad_entry block])" by (simp add: sorts_def)
  from nd have "bad_key hashOf (bad_entry block) \<notin> set (map (bad_key hashOf) old)"
    by (simp only: list_ex_is_bad_block not_False_eq_True)
  with m d have "distinct (map (bad_key hashOf) ?s)" by (rule distinct_keys_sorted)
  then show "distinct (map (bad_key hashOf) (take 10 ?s))"
    by (simp add: take_map [symmetric] distinct_take del: take_map)
qed

lemma set_insert_by: "set (insert_by lt x ys) = insert x (set ys)"
  by (induction ys) auto

lemma mset_insert_by: "mset (insert_by lt x ys) = add_mset x (mset ys)"
  by (induction ys) auto

lemma insert_by_sorted:
  assumes asym: "\<And>a b. lt a b \<Longrightarrow> \<not> lt b a"
    and trans: "\<And>a b c. lt a b \<Longrightarrow> lt b c \<Longrightarrow> lt a c"
    and "sorted_wrt (\<lambda>a b. \<not> lt b a) ys"
  shows "sorted_wrt (\<lambda>a b. \<not> lt b a) (insert_by lt x ys)"
  using assms(3)
proof (induction ys)
  case Nil
  show ?case by simp
next
  case (Cons y ys)
  show ?case
  proof (cases "lt x y")
    case True
    have "\<not> lt z x" if "z \<in> set (y # ys)" for z
    proof
      assume "lt z x"
      then have "lt z y" using True by (rule trans)
      with that Cons.prems True asym show False by auto
    qed
    with True Cons.prems show ?thesis by simp
  next
    case False
    with Cons show ?thesis by (simp add: set_insert_by)
  qed
qed

lemma sort0_sorts: "sorts sort0 (Reverse badBlockList_Less) xs"
proof -
  let ?lt = "Reverse badBlockList_Less :: 'a badBlock \<Rightarrow> 'a badBlock \<Rightarrow> bool"
  have m: "mset (sort0 ?lt xs) = mset xs"
    by (induction xs) (simp_all add: sort0_def mset_insert_by)
  have s: "sorted_wrt (\<lambda>a b. \<not> ?lt b a) (sort0 ?lt xs)"
  proof (induction xs)
    case Nil
    show ?case by (simp add: sort0_def)
  next
    case (Cons x xs)
    have "sorted_wrt (\<lambda>a b. \<not> ?lt b a) (insert_by ?lt x (sort0 ?lt xs))"
    proof (rule insert_by_sorted)
      show "\<not> ?lt b a" if "?lt a b" for a b
        using that by (simp add: Reverse_def badBlockList_Less_def)
      show "?lt a c" if "?lt a b" and "?lt b c" for a b c
        using that by (simp add: Reverse_def badBlockList_Less_def)
      show "sorted_wrt (\<lambda>a b. \<not> ?lt b a) (sort0 ?lt xs)" by (rule Cons.IH)
    qed
    then show ?case by (simp add: sort0_def)
  qed
  from m s show ?thesis by (simp add: sorts_def)
qed

lemma load_db10: "load_bad_blocks decode0 schema0 db10 = Inr (map bad_at [10, 9, 8, 7, 6, 5, 4, 3, 2, 1])"
  by (simp add: load_bad_blocks_def Get_def db10_def decode0_def)

lemma bad_at_less:
  "0 \<le> n \<Longrightarrow> n < 256 \<Longrightarrow> 0 \<le> m \<Longrightarrow> m < 256 \<Longrightarrow>
   Reverse badBlockList_Less (bad_at n) (bad_at m) \<longleftrightarrow> m < n"
  by (simp add: Reverse_def badBlockList_Less_def bad_at_def header_at_def bigUint64_def
      word_less_def uint_word_of_int)

lemma sort0_11:
  "sort0 (Reverse badBlockList_Less) (map bad_at [10, 9, 8, 7, 6, 5, 4, 3, 2, 1] @ [bad_at 11]) =
     map bad_at [11, 10, 9, 8, 7, 6, 5, 4, 3, 2, 1]"
  by (simp add: sort0_def bad_at_less)

lemma sort0_5:
  "sort0 (Reverse badBlockList_Less) (map bad_at [10, 9, 8, 7, 6, 5, 4, 3, 2, 1] @ [bad_at 5]) =
     map bad_at [10, 9, 8, 7, 6, 5, 5, 4, 3, 2, 1]"
  by (simp add: sort0_def bad_at_less)

lemma bad_entry_block_at: "bad_entry (block_at n) = bad_at n"
  by (simp add: bad_entry_def block_at_def bad_at_def)

text \<open>
  Claim C4. Let the store hold the list \<open>old\<close> (or no list, which reads as the empty one).
  \<^verbatim>\<open>WriteBadBlock\<close> with a block whose number and hash an entry of \<open>old\<close> has leaves the
  store as it is. Otherwise it stores the list obtained by appending the block, sorting
  with the reverse of the list's \<^verbatim>\<open>Less\<close> and keeping the first ten entries: a list of at
  most ten entries in descending order of the block numbers, the number of an entry being
  at least the number of every later one. If \<open>old\<close> has at most ten entries, is in
  descending order of the block numbers and has no two entries of one number and hash, so
  has the list stored after the call.
\<close>

theorem bad_block_list_invariant:
  assumes "load_bad_blocks decode sc db = Inr old"
    and "sorts srt (Reverse badBlockList_Less) (old @ [bad_entry block])"
    and "round_trips encode decode (take 10 (srt (Reverse badBlockList_Less) (old @ [bad_entry block])))"
  shows "\<exists>db' new.
           WriteBadBlock srt encode decode hashOf sc db block = Inr db'
         \<and> load_bad_blocks decode sc db' = Inr new
         \<and> (if list_ex (is_bad_block hashOf block) old then db' = db \<and> new = old
            else new = take 10 (srt (Reverse badBlockList_Less) (old @ [bad_entry block]))
               \<and> length new \<le> 10
               \<and> sorted_wrt (\<lambda>a b. bigUint64 (Number (Header a)) \<ge> bigUint64 (Number (Header b))) new)
         \<and> (bad_block_inv hashOf old \<longrightarrow> bad_block_inv hashOf new)"
proof (cases "list_ex (is_bad_block hashOf block) old")
  case True
  with assms(1) WriteBadBlock_duplicate [OF assms(1) True, of srt encode] show ?thesis
    by auto
next
  case False
  let ?new = "take 10 (srt (Reverse badBlockList_Less) (old @ [bad_entry block]))"
  have "\<exists>db'. WriteBadBlock srt encode decode hashOf sc db block = Inr db'
       \<and> load_bad_blocks decode sc db' = Inr ?new"
    using assms(1) False assms(3) by (rule WriteBadBlock_new)
  then obtain db' where w: "WriteBadBlock srt encode decode hashOf sc db block = Inr db'"
    and l: "load_bad_blocks decode sc db' = Inr ?new" by blast
  note inv = new_list_inv [OF assms(2) False]
  have "bad_block_inv hashOf old \<longrightarrow> bad_block_inv hashOf ?new"
    using inv by (simp add: bad_block_inv_def)
  moreover from inv(2)
  have "sorted_wrt (\<lambda>a b. bigUint64 (Number (Header a)) \<ge> bigUint64 (Number (Header b))) ?new"
    by (simp add: descending_by_number_def)
  ultimately show ?thesis using w l False inv(1) by auto
qed

text \<open>
  With the heights 10 down to 1 stored, the block of height 11 displaces the one of height
  1, and the block of height 5 changes nothing.
\<close>

theorem bad_block_list_invariant_witness:
  "(\<exists>db'. WriteBadBlock sort0 encode0 decode0 hashOf0 schema0 db10 (block_at 11) = Inr db'
        \<and> load_bad_blocks decode0 schema0 db' = Inr (map bad_at [11, 10, 9, 8, 7, 6, 5, 4, 3, 2]))
   \<and> WriteBadBlock sort0 encode0 decode0 hashOf0 schema0 db10 (block_at 5) = Inr db10
   \<and> bad_block_inv hashOf0 (map bad_at [11, 10, 9, 8, 7, 6, 5, 4, 3, 2])"
proof -
  let ?old = "map bad_at [10, 9, 8, 7, 6, 5, 4, 3, 2, 1]"
  have inv_old: "bad_block_inv hashOf0 ?old"
    by (simp add: bad_block_inv_def descending_by_number_def bad_key_def bad_at_def
        header_at_def bigUint64_def hashOf0_def word_le_nat_alt)
  have rt: "round_trips encode0 decode0 (map bad_at [11, 10, 9, 8, 7, 6, 5, 4, 3, 2])"
    by (simp add: round_trips_def encode0_def decode0_def bad_at_def header_at_def)
  have dup: "list_ex (is_bad_block hashOf0 (block_at 5)) ?old"
    and new: "\<not> list_ex (is_bad_block hashOf0 (block_at 11)) ?old"
    by (simp_all add: is_bad_block_def NumberU64_def block_at_def bad_at_def header_at_def
        bigUint64_def hashOf0_def)
  have tk: "take 10 (sort0 (Reverse badBlockList_Less) (?old @ [bad_entry (block_at 11)])) =
      map bad_at [11, 10, 9, 8, 7, 6, 5, 4, 3, 2]"
    by (simp only: bad_entry_block_at sort0_11) simp
  note th = bad_block_list_invariant [OF load_db10 sort0_sorts, where block = "block_at 11"
      and encode = encode0 and hashOf = hashOf0, unfolded tk, OF rt]
  from th new inv_old
  have 1: "\<exists>db'. WriteBadBlock sort0 encode0 decode0 hashOf0 schema0 db10 (block_at 11) = Inr db'
        \<and> load_bad_blocks decode0 schema0 db' = Inr (map bad_at [11, 10, 9, 8, 7, 6, 5, 4, 3, 2])"
    and 3: "bad_block_inv hashOf0 (map bad_at [11, 10, 9, 8, 7, 6, 5, 4, 3, 2])"
    by auto
  have "round_trips encode0 decode0 (take 10 (sort0 (Reverse badBlockList_Less) (?old @ [bad_entry (block_at 5)])))"
    by (simp only: bad_entry_block_at sort0_5)
      (simp add: round_trips_def encode0_def decode0_def bad_at_def header_at_def)
  from bad_block_list_invariant [OF load_db10 sort0_sorts this, of hashOf0] dup
  have 2: "WriteBadBlock sort0 encode0 decode0 hashOf0 schema0 db10 (block_at 5) = Inr db10"
    by auto
  from 1 2 3 show ?thesis by blast
qed

section \<open>Properties of the batch commit\<close>

lemma run_appends_append:
  "run_appends appendTo op (xs @ ys) =
     (case run_appends appendTo op xs of Inl err \<Rightarrow> Inl err | Inr op' \<Rightarrow> run_appends appendTo op' ys)"
  by (induction xs arbitrary: op) (auto split: sum.splits)

lemma writeAncientBlock_run:
  "writeAncientBlock appendTo hashOf op (blocks ! i) (blockHeader (blocks ! i)) (receipts ! i)
      (spec_td td blocks i) =
   run_appends appendTo op (spec_block_appends hashOf td blocks receipts i)"
  by (simp add: writeAncientBlock_def spec_block_appends_def Let_def split: sum.splits)

lemma spec_td_0: "spec_td td blocks 0 = td"
  by (simp add: spec_td_def)

lemma spec_td_Suc:
  "Suc i < length blocks \<Longrightarrow>
   spec_td td blocks (Suc i) = spec_td td blocks i + TotalDifficulty (blocks ! Suc i)"
  by (simp add: spec_td_def TotalDifficulty_def take_Suc_conv_app_nth nth_tl)

lemma write_blocks_run:
  "n = length blocks - i \<Longrightarrow> i \<le> length blocks \<Longrightarrow> length blocks \<le> length receipts \<Longrightarrow>
   write_blocks appendTo hashOf receipts i (spec_td td blocks (i - 1)) op (drop i blocks) =
   run_appends appendTo op
     (concat (map (spec_block_appends hashOf td blocks receipts) [i..<length blocks]))"
proof (induction n arbitrary: i op)
  case 0
  then show ?case by simp
next
  case (Suc n)
  then have i: "i < length blocks" by simp
  have dr: "drop i blocks = blocks ! i # drop (Suc i) blocks"
    using i by (simp add: Cons_nth_drop_Suc)
  have up: "[i..<length blocks] = i # [Suc i..<length blocks]"
    using i by (simp add: upt_conv_Cons)
  have td: "(if 0 < i then spec_td td blocks (i - Suc 0) + TotalDifficulty (blocks ! i)
             else spec_td td blocks (i - Suc 0)) = spec_td td blocks i"
  proof (cases i)
    case 0
    then show ?thesis by simp
  next
    case (Suc k)
    with i show ?thesis by (simp add: spec_td_Suc)
  qed
  have ih: "write_blocks appendTo hashOf receipts (Suc i) (spec_td td blocks i) op'
        (drop (Suc i) blocks) =
      run_appends appendTo op'
        (concat (map (spec_block_appends hashOf td blocks receipts) [Suc i..<length blocks]))" for op'
    using Suc.IH [of "Suc i" op'] Suc.prems i by simp
  have ir: "\<not> length receipts \<le> i" using i Suc.prems by simp
  show ?case
    unfolding dr up
    by (simp add: ir Let_def td writeAncientBlock_run ih run_appends_append
        split del: if_split split: sum.splits)
qed

lemma WriteAncientBlocks_spec:
  "length blocks \<le> length receipts \<Longrightarrow>
   WriteAncientBlocks appendTo sizeOf hashOf db blocks receipts td =
     spec_batch appendTo sizeOf db (spec_appends hashOf td blocks receipts)"
  using write_blocks_run [of "length blocks" blocks 0 receipts appendTo hashOf td db]
  by (simp add: WriteAncientBlocks_def ModifyAncients_def spec_batch_def spec_appends_def spec_td_0)

text \<open>
  Claim C5. Given at least as many receipt lists as blocks, \<^verbatim>\<open>WriteAncientBlocks\<close> makes,
  for the blocks in order, the appends of the hash, the header, the body, the receipts and
  the total difficulty of block \<open>i\<close> before any append of block \<open>i + 1\<close>; the total
  difficulty appended for block \<open>i\<close> is the given one plus the difficulty of each of the
  blocks 1 to \<open>i\<close>, so the given one itself for block 0; the first append that fails ends
  the batch with its error and leaves the store as it was. The difficulty of a block is
  what \<^verbatim>\<open>block.TotalDifficulty()\<close> returns, by the specification's account of that method.
\<close>

theorem ancient_batch_appends:
  "length blocks \<le> length receipts \<longrightarrow>
   WriteAncientBlocks appendTo sizeOf hashOf db blocks receipts td =
     spec_batch appendTo sizeOf db (spec_appends hashOf td blocks receipts)"
  by (simp add: WriteAncientBlocks_spec)

lemma spec_appends_3:
  "spec_appends hashOf0 100 [mined 7 3, mined 8 5, mined 9 7] [[], [], []] =
     [(freezerHashTable, 7, RawItem (hashOf0 (header_at 7))),
      (freezerHeaderTable, 7, HeaderItem (header_at 7)),
      (freezerBodiesTable, 7, BodyItem empty_body),
      (freezerReceiptTable, 7, ReceiptsItem []),
      (freezerDifficultyTable, 7, TdItem 100),
      (freezerHashTable, 8, RawItem (hashOf0 (header_at 8))),
      (freezerHeaderTable, 8, HeaderItem (header_at 8)),
      (freezerBodiesTable, 8, BodyItem empty_body),
      (freezerReceiptTable, 8, ReceiptsItem []),
      (freezerDifficultyTable, 8, TdItem 105),
      (freezerHashTable, 9, RawItem (hashOf0 (header_at 9))),
      (freezerHeaderTable, 9, HeaderItem (header_at 9)),
      (freezerBodiesTable, 9, BodyItem empty_body),
      (freezerReceiptTable, 9, ReceiptsItem []),
      (freezerDifficultyTable, 9, TdItem 112)]"
  by (simp add: spec_appends_def spec_block_appends_def spec_td_def upt_conv_Cons Let_def
      mined_def NumberU64_def bigUint64_def header_at_def)

text \<open>
  Three blocks at heights 7, 8 and 9, of difficulties 3, 5 and 7, on a given total
  difficulty of 100: the values appended are 100, 105 and 112. A batch whose second block is refused leaves nothing.
\<close>

theorem ancient_batch_appends_witness:
  "WriteAncientBlocks appendTo0 sizeOf0 hashOf0 []
      [mined 7 3, mined 8 5, mined 9 7] [[], [], []] 100 =
     (Inr 15,
      [(freezerHashTable, 7, RawItem (hashOf0 (header_at 7))),
       (freezerHeaderTable, 7, HeaderItem (header_at 7)),
       (freezerBodiesTable, 7, BodyItem empty_body),
       (freezerReceiptTable, 7, ReceiptsItem []),
       (freezerDifficultyTable, 7, TdItem 100),
       (freezerHashTable, 8, RawItem (hashOf0 (header_at 8))),
       (freezerHeaderTable, 8, HeaderItem (header_at 8)),
       (freezerBodiesTable, 8, BodyItem empty_body),
       (freezerReceiptTable, 8, ReceiptsItem []),
       (freezerDifficultyTable, 8, TdItem 105),
       (freezerHashTable, 9, RawItem (hashOf0 (header_at 9))),
       (freezerHeaderTable, 9, HeaderItem (header_at 9)),
       (freezerBodiesTable, 9, BodyItem empty_body),
       (freezerReceiptTable, 9, ReceiptsItem []),
       (freezerDifficultyTable, 9, TdItem 112)])
   \<and> WriteAncientBlocks appendTo0 sizeOf0 hashOf0 []
      [mined 7 3, mined 0 5] [[], []] 100 =
     (Inl (AppendFailed freezerHashTable 0 ''out of order''), [])"
proof -
  have 1: "WriteAncientBlocks appendTo0 sizeOf0 hashOf0 []
      [mined 7 3, mined 8 5, mined 9 7] [[], [], []] 100 =
     spec_batch appendTo0 sizeOf0 []
       (spec_appends hashOf0 100 [mined 7 3, mined 8 5, mined 9 7] [[], [], []])"
    using ancient_batch_appends [of "[mined 7 3, mined 8 5, mined 9 7]" "[[], [], []]"
        appendTo0 sizeOf0 hashOf0 "[]" 100]
    by simp
  have 2: "WriteAncientBlocks appendTo0 sizeOf0 hashOf0 []
      [mined 7 3, mined 0 5] [[], []] 100 =
     spec_batch appendTo0 sizeOf0 []
       (spec_appends hashOf0 100 [mined 7 3, mined 0 5] [[], []])"
    using ancient_batch_appends [of "[mined 7 3, mined 0 5]" "[[], []]"
        appendTo0 sizeOf0 hashOf0 "[]" 100]
    by simp
  have 3: "spec_batch appendTo0 sizeOf0 []
       (spec_appends hashOf0 100 [mined 7 3, mined 0 5] [[], []]) =
     (Inl (AppendFailed freezerHashTable 0 ''out of order''), [])"
    by (simp add: spec_batch_def spec_appends_def spec_block_appends_def spec_td_def upt_conv_Cons
        Let_def mined_def NumberU64_def bigUint64_def header_at_def appendTo0_def)
  show ?thesis
    unfolding 1 2 3 spec_appends_3
    by (simp add: spec_batch_def appendTo0_def sizeOf0_def)
qed

section \<open>Properties of the range queries\<close>

lemma length_be_encode: "length (be_encode k n) = k"
  by (induction k) auto

lemma be_decode_bound: "be_decode bs < 256 ^ length bs"
proof (induction bs)
  case Nil
  show ?case by simp
next
  case (Cons b bs)
  have "unat b < 256" using unsigned_less [of b, where ?'a = nat] by simp
  then have "unat b \<le> 255" by simp
  then have a: "unat b * 256 ^ length bs \<le> 255 * 256 ^ length bs" by (rule mult_le_mono1)
  have e: "be_decode (b # bs) = unat b * 256 ^ length bs + be_decode bs" by simp
  have p: "(256::nat) ^ length (b # bs) = 256 * 256 ^ length bs" by simp
  show ?case unfolding e p using a Cons by linarith
qed

lemma be_decode_Cons_less:
  assumes "length xs = length ys" and "unat a < unat b"
  shows "be_decode (a # xs) < be_decode (b # ys)"
proof -
  have "be_decode (a # xs) < unat a * 256 ^ length xs + 256 ^ length xs"
    using be_decode_bound [of xs] by simp
  also have "\<dots> = (unat a + 1) * 256 ^ length xs" by simp
  also have "\<dots> \<le> unat b * 256 ^ length xs" using assms(2) by (intro mult_le_mono1) simp
  also have "\<dots> \<le> be_decode (b # ys)" using assms(1) by simp
  finally show ?thesis .
qed

lemma be_decode_less_iff:
  "length xs = length ys \<Longrightarrow> xs < ys \<longleftrightarrow> be_decode xs < be_decode ys"
proof (induction xs ys rule: list_induct2)
  case Nil
  show ?case by simp
next
  case (Cons a xs b ys)
  consider "unat a < unat b" | "unat b < unat a" | "a = b"
    by (metis linorder_neqE_nat word_unat_eq_iff)
  then show ?case
  proof cases
    case 1
    then have "a < b" by (simp add: word_less_nat_alt)
    moreover from 1 Cons.hyps have "be_decode (a # xs) < be_decode (b # ys)"
      by (rule be_decode_Cons_less [rotated])
    ultimately show ?thesis by simp
  next
    case 2
    then have ba: "b < a" by (simp add: word_less_nat_alt)
    from Cons.hyps have "length ys = length xs" by simp
    from this 2 have "be_decode (b # ys) < be_decode (a # xs)"
      by (rule be_decode_Cons_less)
    moreover from ba have "\<not> a < b" "a \<noteq> b" by auto
    ultimately show ?thesis by simp
  next
    case 3
    with Cons show ?thesis by simp
  qed
qed

lemma be_decode_eq_iff:
  "length xs = length ys \<Longrightarrow> be_decode xs = be_decode ys \<longleftrightarrow> xs = ys"
  using be_decode_less_iff [of xs ys] be_decode_less_iff [of ys xs]
  by (metis less_irrefl linorder_neqE)

lemma be_decode_le_iff:
  "length xs = length ys \<Longrightarrow> xs \<le> ys \<longleftrightarrow> be_decode xs \<le> be_decode ys"
  using be_decode_less_iff [of ys xs] by (simp add: not_less [symmetric])

lemma be_decode_encode: "be_decode (be_encode k n) = n mod 256 ^ k"
proof (induction k)
  case 0
  show ?case by simp
next
  case (Suc k)
  have "unat (word_of_nat (n div 256 ^ k) :: byte) = (n div 256 ^ k) mod 256"
    by (simp add: unat_of_nat)
  then have "be_decode (be_encode (Suc k) n) = (n div 256 ^ k) mod 256 * 256 ^ k + n mod 256 ^ k"
    by (simp add: Suc length_be_encode)
  also have "\<dots> = 256 ^ k * (n div 256 ^ k mod 256) + n mod 256 ^ k"
    by (simp only: mult.commute)
  also have "\<dots> = n mod (256 ^ k * 256)"
    by (rule mod_mult2_eq [symmetric])
  also have "(256::nat) ^ k * 256 = 256 ^ Suc k"
    by simp
  finally show ?case .
qed

lemma append_less_same_length:
  "length a = length b \<Longrightarrow> a @ x < b @ y \<longleftrightarrow> a < b \<or> (a = b \<and> x < y)"
  by (induction a b rule: list_induct2) auto

lemma append_le_same_length:
  "length a = length b \<Longrightarrow> a @ x \<le> b @ y \<longleftrightarrow> a < b \<or> (a = b \<and> x \<le> y)"
  by (induction a b rule: list_induct2) auto

lemma sandwich_prefix:
  fixes p :: bytes
  shows "p @ s \<le> k \<Longrightarrow> k < p @ e \<Longrightarrow> take (length p) k = p"
proof (induction p arbitrary: k)
  case Nil
  show ?case by simp
next
  case (Cons a p)
  then obtain b k' where k: "k = b # k'" by (cases k) auto
  with Cons.prems have "a = b" "p @ s \<le> k'" "k' < p @ e" by (auto dest: order.asym)
  with Cons.IH k show ?case by simp
qed

lemma length_encodeBlockNumber: "length (encodeBlockNumber n) = 8"
  by (simp add: encodeBlockNumber_def length_be_encode)

lemma unat_Uint64: "length bs = 8 \<Longrightarrow> unat (Uint64 (bs @ rest)) = be_decode bs"
proof -
  assume l: "length bs = 8"
  have "be_decode bs < 256 ^ 8" using be_decode_bound [of bs] l by simp
  then have "be_decode bs < 2 ^ 64" by simp
  then show ?thesis using l by (simp add: Uint64_def unat_of_nat)
qed


lemma be_decode_encodeBlockNumber: "be_decode (encodeBlockNumber n) = unat n"
proof -
  have "unat n < 2 ^ 64" using unsigned_less [of n, where ?'a = nat] by simp
  then have "unat n mod 256 ^ 8 = unat n" by simp
  then show ?thesis by (simp add: encodeBlockNumber_def be_decode_encode)
qed

lemma key_split:
  assumes "has_prefix (headerPrefix sc) key" and "length (headerPrefix sc) + 8 \<le> length key"
  shows "key = headerPrefix sc @ take 8 (drop (length (headerPrefix sc)) key)
                @ drop (length (headerPrefix sc) + 8) key"
    and "length (take 8 (drop (length (headerPrefix sc)) key)) = 8"
proof -
  let ?n = "length (headerPrefix sc)"
  have "key = take ?n key @ drop ?n key" by simp
  also have "take ?n key = headerPrefix sc" using assms(1) by (simp add: has_prefix_def)
  also have "drop ?n key = take 8 (drop ?n key) @ drop 8 (drop ?n key)"
    by (rule append_take_drop_id [symmetric])
  also have "drop 8 (drop ?n key) = drop (?n + 8) key" by (simp add: add.commute)
  finally show "key = headerPrefix sc @ take 8 (drop ?n key) @ drop (?n + 8) key" .
  show "length (take 8 (drop ?n key)) = 8" using assms(2) by simp
qed

lemma unat_key_number:
  "length (headerPrefix sc) + 8 \<le> length key \<Longrightarrow>
   unat (key_number sc key) = be_decode (take 8 (drop (length (headerPrefix sc)) key))"
  using unat_Uint64 [of "take 8 (drop (length (headerPrefix sc)) key)" "[]"]
  by (simp add: key_number_def)

lemma key_number_mono:
  assumes p1: "has_prefix (headerPrefix sc) k1" and p2: "has_prefix (headerPrefix sc) k2"
    and l1: "length (headerPrefix sc) + 8 \<le> length k1" and l2: "length (headerPrefix sc) + 8 \<le> length k2"
    and lt: "k1 < k2"
  shows "key_number sc k1 \<le> key_number sc k2"
proof -
  let ?hp = "headerPrefix sc"
  let ?n1 = "take 8 (drop (length ?hp) k1)" and ?n2 = "take 8 (drop (length ?hp) k2)"
  let ?r1 = "drop (length ?hp + 8) k1" and ?r2 = "drop (length ?hp + 8) k2"
  note s1 = key_split [OF p1 l1] and s2 = key_split [OF p2 l2]
  from lt have "?hp @ ?n1 @ ?r1 < ?hp @ ?n2 @ ?r2" using s1(1) s2(1) by simp
  then have "?n1 @ ?r1 < ?n2 @ ?r2" by (simp add: append_less_same_length)
  then have "?n1 < ?n2 \<or> ?n1 = ?n2"
    using append_less_same_length [of ?n1 ?n2 ?r1 ?r2] s1(2) s2(2) by auto
  then have "be_decode ?n1 \<le> be_decode ?n2"
    using be_decode_less_iff [of ?n1 ?n2] s1(2) s2(2) by auto
  then show ?thesis
    by (simp add: word_le_nat_alt unat_key_number l1 l2)
qed

lemma start_le_key:
  assumes p: "has_prefix (headerPrefix sc) key" and l: "length (headerPrefix sc) + 8 \<le> length key"
  shows "headerPrefix sc @ encodeBlockNumber first \<le> key \<longleftrightarrow> first \<le> key_number sc key"
proof -
  let ?hp = "headerPrefix sc"
  let ?n = "take 8 (drop (length ?hp) key)" and ?r = "drop (length ?hp + 8) key"
  let ?e = "encodeBlockNumber first"
  note s = key_split [OF p l]
  have le: "length ?e = length ?n" using s(2) by (simp add: length_encodeBlockNumber)
  have "?hp @ ?e \<le> key \<longleftrightarrow> ?hp @ ?e @ [] \<le> ?hp @ ?n @ ?r" using s(1) by simp
  also have "\<dots> \<longleftrightarrow> ?e @ [] \<le> ?n @ ?r" by (simp only: append_le_same_length) simp
  also have "\<dots> \<longleftrightarrow> ?e < ?n \<or> ?e = ?n"
    using append_le_same_length [OF le, of "[]" ?r] by simp
  also have "\<dots> \<longleftrightarrow> ?e \<le> ?n" by auto
  also have "\<dots> \<longleftrightarrow> be_decode ?e \<le> be_decode ?n" using le by (rule be_decode_le_iff)
  also have "\<dots> \<longleftrightarrow> first \<le> key_number sc key"
    by (simp add: be_decode_encodeBlockNumber unat_key_number l word_le_nat_alt)
  finally show ?thesis .
qed

lemma hashes_in_range_loop_spec:
  assumes "sorted_wrt (\<lambda>a b. key_number sc (fst a) \<le> key_number sc (fst b))
             (filter (\<lambda>(key, val). length key = keyLength) it)"
  shows "hashes_in_range_loop sc keyLength last' it hashes =
     hashes @ map (\<lambda>(key, val). (key_number sc key, key_hash key))
       (filter (\<lambda>(key, val). length key = keyLength \<and> key_number sc key \<le> last') it)"
  using assms
proof (induction it arbitrary: hashes)
  case Nil
  show ?case by simp
next
  case (Cons kv it)
  obtain key val where kv: "kv = (key, val)" by (cases kv)
  show ?case
  proof (cases "length key = keyLength")
    case False
    with Cons kv show ?thesis by simp
  next
    case True
    note len = True
    from Cons.prems kv len
    have later: "\<forall>x \<in> set (filter (\<lambda>(key, val). length key = keyLength) it).
        key_number sc key \<le> key_number sc (fst x)"
      and rest: "sorted_wrt (\<lambda>a b. key_number sc (fst a) \<le> key_number sc (fst b))
             (filter (\<lambda>(key, val). length key = keyLength) it)"
      by auto
    show ?thesis
    proof (cases "key_number sc key > last'")
      case True
      have "\<forall>x \<in> set it. \<not> (case x of (key, val) \<Rightarrow> length key = keyLength \<and> key_number sc key \<le> last')"
      proof (intro ballI notI)
        fix x assume x: "x \<in> set it"
          and c: "case x of (key, val) \<Rightarrow> length key = keyLength \<and> key_number sc key \<le> last'"
        obtain k v where xkv: "x = (k, v)" by (cases x)
        with c have lk: "length k = keyLength" and le: "key_number sc k \<le> last'" by auto
        from x xkv lk later have "key_number sc key \<le> key_number sc k" by force
        with True le show False by simp
      qed
      then have "filter (\<lambda>(key, val). length key = keyLength \<and> key_number sc key \<le> last') it = []"
        by (rule filter_False)
      with True kv len show ?thesis by simp
    next
      case False
      with Cons.IH [OF rest] kv len show ?thesis by (simp add: Let_def)
    qed
  qed
qed

lemma iterator_numbers_ascend:
  assumes "ordered db"
  shows "sorted_wrt (\<lambda>a b. key_number sc (fst a) \<le> key_number sc (fst b))
           (filter (\<lambda>(key, val). length key = length (headerPrefix sc) + 8 + 32)
              (NewIterator db (headerPrefix sc) start))"
proof -
  let ?it = "filter (\<lambda>(key, val). length key = length (headerPrefix sc) + 8 + 32)
       (NewIterator db (headerPrefix sc) start)"
  from assms have "sorted_wrt (\<lambda>a b. fst a < fst b) db"
    by (simp add: ordered_def sorted_wrt_map)
  then have s: "sorted_wrt (\<lambda>a b. fst a < fst b) ?it"
    unfolding NewIterator_def by (intro sorted_wrt_filter)
  show ?thesis
  proof (rule sorted_wrt_mono_rel [OF _ s])
    fix a b assume a: "a \<in> set ?it" and b: "b \<in> set ?it" and lt: "fst a < fst b"
    from a have pa: "has_prefix (headerPrefix sc) (fst a)" and la: "length (headerPrefix sc) + 8 \<le> length (fst a)"
      by (auto simp: NewIterator_def)
    from b have pb: "has_prefix (headerPrefix sc) (fst b)" and lb: "length (headerPrefix sc) + 8 \<le> length (fst b)"
      by (auto simp: NewIterator_def)
    show "key_number sc (fst a) \<le> key_number sc (fst b)"
      by (rule key_number_mono [OF pa pb la lb lt])
  qed
qed

lemma hashes_in_range_select:
  "filter (\<lambda>(key, val). length key = length (headerPrefix sc) + 8 + 32 \<and> key_number sc key \<le> last')
     (NewIterator db (headerPrefix sc) (encodeBlockNumber first)) =
   filter (\<lambda>(key, val). is_header_entry sc key \<and> first \<le> key_number sc key \<and> key_number sc key \<le> last') db"
  unfolding NewIterator_def filter_filter
proof (rule filter_cong [OF refl])
  fix x assume "x \<in> set db"
  obtain key val where x: "x = (key, val)" by (cases x)
  show "((case x of (key, val) \<Rightarrow> has_prefix (headerPrefix sc) key \<and> headerPrefix sc @ encodeBlockNumber first \<le> key)
        \<and> (case x of (key, val) \<Rightarrow> length key = length (headerPrefix sc) + 8 + 32 \<and> key_number sc key \<le> last')) =
       (case x of (key, val) \<Rightarrow> is_header_entry sc key \<and> first \<le> key_number sc key \<and> key_number sc key \<le> last')"
    using start_le_key [of sc key first]
    by (auto simp: x is_header_entry_def)
qed

lemma spec_hashes_sorted:
  assumes "ordered db"
  shows "sorted (map fst (spec_hashes_in_range sc db first last'))"
proof -
  let ?sel = "filter (\<lambda>(key, val). is_header_entry sc key \<and> first \<le> key_number sc key
                  \<and> key_number sc key \<le> last') db"
  from assms have "sorted_wrt (\<lambda>a b. fst a < fst b) db"
    by (simp add: ordered_def sorted_wrt_map)
  then have s: "sorted_wrt (\<lambda>a b. fst a < fst b) ?sel" by (intro sorted_wrt_filter)
  have "sorted_wrt (\<lambda>a b. key_number sc (fst a) \<le> key_number sc (fst b)) ?sel"
  proof (rule sorted_wrt_mono_rel [OF _ s])
    fix a b assume a: "a \<in> set ?sel" and b: "b \<in> set ?sel" and lt: "fst a < fst b"
    from a have pa: "has_prefix (headerPrefix sc) (fst a)" and la: "length (headerPrefix sc) + 8 \<le> length (fst a)"
      by (auto simp: is_header_entry_def)
    from b have pb: "has_prefix (headerPrefix sc) (fst b)" and lb: "length (headerPrefix sc) + 8 \<le> length (fst b)"
      by (auto simp: is_header_entry_def)
    show "key_number sc (fst a) \<le> key_number sc (fst b)"
      by (rule key_number_mono [OF pa pb la lb lt])
  qed
  then show ?thesis
    by (simp add: spec_hashes_in_range_def sorted_wrt_map comp_def case_prod_beta)
qed

text \<open>
  Claim C6, as the code has it. On a store whose iterator yields the keys in ascending
  order, and for a range whose size the runtime grants as a capacity,
  \<^verbatim>\<open>ReadAllHashesInRange(first, last)\<close> returns the number and the hash cut out of every key
  that has the header prefix, has exactly the length of a header entry (prefix, eight
  bytes of number, thirty-two bytes of hash) and has a number from \<open>first\<close> to \<open>last\<close>, both
  included, in the order of the keys, so in ascending order of the numbers. Every header
  stored at a height is among them, the headers of forks too; the keys of other lengths
  under the same number prefix (the canonical entry with its suffix byte, the total
  difficulty) are left out.
\<close>

theorem hashes_in_range_all_forks:
  "ordered db \<and> unat (1 + last' - first) \<le> maxCap \<longrightarrow>
     ReadAllHashesInRange maxCap sc db first last' = Inr (spec_hashes_in_range sc db first last')
     \<and> sorted (map fst (spec_hashes_in_range sc db first last'))"
proof (intro impI, elim conjE)
  assume o: "ordered db" and c: "unat (1 + last' - first) \<le> maxCap"
  have "hashes_in_range_loop sc (length (headerPrefix sc) + 8 + 32) last'
          (NewIterator db (headerPrefix sc) (encodeBlockNumber first)) [] =
        [] @ map (\<lambda>(key, val). (key_number sc key, key_hash key))
          (filter (\<lambda>(key, val). length key = length (headerPrefix sc) + 8 + 32 \<and> key_number sc key \<le> last')
             (NewIterator db (headerPrefix sc) (encodeBlockNumber first)))"
    by (rule hashes_in_range_loop_spec [OF iterator_numbers_ascend [OF o]])
  then have "hashes_in_range_loop sc (length (headerPrefix sc) + 8 + 32) last'
          (NewIterator db (headerPrefix sc) (encodeBlockNumber first)) [] =
        spec_hashes_in_range sc db first last'"
    by (simp only: hashes_in_range_select spec_hashes_in_range_def append_Nil)
  with c spec_hashes_sorted [OF o]
  show "ReadAllHashesInRange maxCap sc db first last' = Inr (spec_hashes_in_range sc db first last')
     \<and> sorted (map fst (spec_hashes_in_range sc db first last'))"
    by (simp add: ReadAllHashesInRange_def Let_def)
qed

lemma be_encode_numeral:
  "be_encode (numeral v) n = word_of_nat (n div 256 ^ pred_numeral v) # be_encode (pred_numeral v) n"
  by (simp add: numeral_eq_Suc)

lemma be_encode_1: "be_encode 1 n = [word_of_nat n]"
  by (simp add: One_nat_def)

lemma encodeBlockNumber_small:
  "n < 256 \<Longrightarrow> encodeBlockNumber (word_of_nat n) = [0, 0, 0, 0, 0, 0, 0, word_of_nat n]"
  by (simp add: encodeBlockNumber_def be_encode_numeral be_encode_1 unat_of_nat)

lemma encodeBlockNumber_7: "encodeBlockNumber 7 = [0, 0, 0, 0, 0, 0, 0, 7]"
  using encodeBlockNumber_small [of 7] by simp

lemma replicate_32: "replicate 32 x = x # replicate 31 x"
proof -
  have "(32::nat) = Suc 31" by simp
  then show ?thesis by (simp only: replicate_Suc)
qed

lemma ordered_forked_db: "ordered forked_db"
  by (simp add: ordered_def forked_db_def headerKey_def headerHashKey_def headerHashSuffix_def
      schema0_def encodeBlockNumber_small [of 6, simplified] encodeBlockNumber_small [of 7, simplified]
      encodeBlockNumber_small [of 8, simplified] replicate_32 word_less_nat_alt)

text \<open>
  Two headers are stored at height 7, and the canonical entry of height 7 names the first.
  The range query from 7 to 7 returns both hashes: it does not leave out the fork.
\<close>

theorem hashes_in_range_counterexample:
  "ReadAllHashesInRange 1 schema0 forked_db 7 7 = Inr [(7, replicate 32 1), (7, replicate 32 2)]"
  by (simp add: ReadAllHashesInRange_def NewIterator_def has_prefix_def forked_db_def headerKey_def
      headerHashKey_def headerHashSuffix_def schema0_def key_number_def key_hash_def
      encodeBlockNumber_small [of 6, simplified] encodeBlockNumber_small [of 7, simplified]
      encodeBlockNumber_small [of 8, simplified] replicate_32 word_less_nat_alt word_le_nat_alt
      Uint64_def BytesToHash_def HashLength_def)

lemma spec_forked_db:
  "spec_hashes_in_range schema0 forked_db 7 8 = [(7, replicate 32 1), (7, replicate 32 2), (8, replicate 32 4)]"
  by (simp add: spec_hashes_in_range_def is_header_entry_def has_prefix_def forked_db_def headerKey_def
      headerHashKey_def headerHashSuffix_def schema0_def key_number_def key_hash_def
      encodeBlockNumber_small [of 6, simplified] encodeBlockNumber_small [of 7, simplified]
      encodeBlockNumber_small [of 8, simplified] replicate_32 word_less_nat_alt word_le_nat_alt
      Uint64_def BytesToHash_def HashLength_def)

text \<open>The range from 7 to 8 over the same store: both headers of height 7 and the one of height 8.\<close>

theorem hashes_in_range_all_forks_witness:
  "ReadAllHashesInRange 2 schema0 forked_db 7 8 =
     Inr [(7, replicate 32 1), (7, replicate 32 2), (8, replicate 32 4)]"
proof -
  have c: "unat (1 + 8 - 7 :: u64) \<le> 2" by simp
  from hashes_in_range_all_forks [of forked_db 8 7 2 schema0] ordered_forked_db c
  show ?thesis by (simp only: spec_forked_db simp_thms)
qed

lemma canonical_hashes_loop_Cons:
  "canonical_hashes_loop sc end limit ((key, val) # it) numbers hashes =
     (if key \<ge> end then (numbers, hashes)
      else if canonical_shape sc key
      then if int (length numbers) + 1 \<ge> limit
           then (numbers @ [key_number sc key], hashes @ [BytesToHash val])
           else canonical_hashes_loop sc end limit it (numbers @ [key_number sc key])
                  (hashes @ [BytesToHash val])
      else canonical_hashes_loop sc end limit it numbers hashes)"
  by (auto simp: canonical_shape_def Let_def)

lemma canonical_hashes_loop_spec:
  assumes "sorted_wrt (<) (map fst it)" and "int (length numbers) < limit"
  shows "canonical_hashes_loop sc end limit it numbers hashes =
     (numbers @ map fst (take (nat limit - length numbers)
         (map (\<lambda>(key, val). (key_number sc key, BytesToHash val))
            (filter (\<lambda>(key, val). key < end \<and> canonical_shape sc key) it))),
      hashes @ map snd (take (nat limit - length numbers)
         (map (\<lambda>(key, val). (key_number sc key, BytesToHash val))
            (filter (\<lambda>(key, val). key < end \<and> canonical_shape sc key) it))))"
  using assms
proof (induction it arbitrary: numbers hashes)
  case Nil
  show ?case by simp
next
  case (Cons kv it)
  obtain key val where kv: "kv = (key, val)" by (cases kv)
  let ?sel = "map (\<lambda>(key, val). (key_number sc key, BytesToHash val))
            (filter (\<lambda>(key, val). key < end \<and> canonical_shape sc key) it)"
  from Cons.prems kv have above: "\<forall>x \<in> set it. key < fst x" and rest: "sorted_wrt (<) (map fst it)"
    by auto
  show ?case
  proof (cases "key \<ge> end")
    case True
    have "\<forall>x \<in> set it. \<not> (case x of (key, val) \<Rightarrow> key < end \<and> canonical_shape sc key)"
    proof (intro ballI notI)
      fix x assume x: "x \<in> set it" and c: "case x of (key, val) \<Rightarrow> key < end \<and> canonical_shape sc key"
      from x above have "key < fst x" by simp
      moreover from c have "fst x < end" by (cases x) simp
      ultimately show False using True by simp
    qed
    then have "filter (\<lambda>(key, val). key < end \<and> canonical_shape sc key) it = []"
      by (rule filter_False)
    moreover from True have "\<not> key < end" by (simp add: not_less)
    ultimately show ?thesis using True
      unfolding kv canonical_hashes_loop_Cons by simp
  next
    case False
    then have lt: "key < end" by (simp add: not_le)
    show ?thesis
    proof (cases "canonical_shape sc key")
      case nsh: False
      have "filter (\<lambda>(key, val). key < end \<and> canonical_shape sc key) ((key, val) # it) =
          filter (\<lambda>(key, val). key < end \<and> canonical_shape sc key) it"
        using nsh by simp
      with False nsh Cons.IH [OF rest Cons.prems(2), of hashes] show ?thesis
        unfolding kv canonical_hashes_loop_Cons by simp
    next
      case sh: True
      have sel: "map (\<lambda>(key, val). (key_number sc key, BytesToHash val))
            (filter (\<lambda>(key, val). key < end \<and> canonical_shape sc key) ((key, val) # it)) =
          (key_number sc key, BytesToHash val) # ?sel"
        using sh lt by simp
      show ?thesis
      proof (cases "int (length numbers) + 1 \<ge> limit")
        case full: True
        with Cons.prems(2) have "nat limit - length numbers = Suc 0" by simp
        with full False sh show ?thesis
          unfolding kv canonical_hashes_loop_Cons sel by simp
      next
        case more: False
        then have small: "int (length (numbers @ [key_number sc key])) < limit" by simp
        have tk: "nat limit - length numbers = Suc (nat limit - length (numbers @ [key_number sc key]))"
          using more by simp
        have "canonical_hashes_loop sc end limit ((key, val) # it) numbers hashes =
            canonical_hashes_loop sc end limit it (numbers @ [key_number sc key]) (hashes @ [BytesToHash val])"
          using more False sh unfolding canonical_hashes_loop_Cons by simp
        also have "\<dots> =
            ((numbers @ [key_number sc key]) @ map fst (take (nat limit - length (numbers @ [key_number sc key])) ?sel),
             (hashes @ [BytesToHash val]) @ map snd (take (nat limit - length (numbers @ [key_number sc key])) ?sel))"
          by (rule Cons.IH [OF rest small])
        also have "\<dots> =
            (numbers @ map fst (take (nat limit - length numbers) ((key_number sc key, BytesToHash val) # ?sel)),
             hashes @ map snd (take (nat limit - length numbers) ((key_number sc key, BytesToHash val) # ?sel)))"
          unfolding tk by simp
        finally show ?thesis unfolding kv sel .
      qed
    qed
  qed
qed

lemma canonical_key_split:
  assumes "is_canonical_entry sc key"
  shows "key = headerPrefix sc @ take 8 (drop (length (headerPrefix sc)) key) @ headerHashSuffix"
    and "length (take 8 (drop (length (headerPrefix sc)) key)) = 8"
proof -
  from assms have p: "has_prefix (headerPrefix sc) key"
    and l: "length key = length (headerPrefix sc) + 8 + 1"
    and s: "drop (length key - 1) key = headerHashSuffix"
    by (auto simp: is_canonical_entry_def)
  from l have l8: "length (headerPrefix sc) + 8 \<le> length key" by simp
  from l have "length key - 1 = length (headerPrefix sc) + 8" by simp
  with s have "drop (length (headerPrefix sc) + 8) key = headerHashSuffix" by simp
  with key_split [OF p l8]
  show "key = headerPrefix sc @ take 8 (drop (length (headerPrefix sc)) key) @ headerHashSuffix"
    and "length (take 8 (drop (length (headerPrefix sc)) key)) = 8"
    by simp_all
qed

lemma canonical_key_bounds:
  assumes c: "is_canonical_entry sc key"
  shows "headerHashKey sc from \<le> key \<longleftrightarrow> from \<le> key_number sc key"
    and "key < headerHashKey sc to \<longleftrightarrow> key_number sc key < to"
proof -
  let ?hp = "headerPrefix sc" and ?s = headerHashSuffix
  let ?n = "take 8 (drop (length ?hp) key)"
  note k = canonical_key_split [OF c]
  from c have l8: "length ?hp + 8 \<le> length key" by (simp add: is_canonical_entry_def)
  have un: "unat (key_number sc key) = be_decode ?n" using l8 by (rule unat_key_number)
  have lf: "length (encodeBlockNumber from) = length ?n" and lt: "length ?n = length (encodeBlockNumber to)"
    using k(2) by (simp_all add: length_encodeBlockNumber)
  have "headerHashKey sc from \<le> key \<longleftrightarrow> ?hp @ encodeBlockNumber from @ ?s \<le> ?hp @ ?n @ ?s"
    using k(1) by (simp add: headerHashKey_def)
  also have "\<dots> \<longleftrightarrow> encodeBlockNumber from @ ?s \<le> ?n @ ?s"
    by (simp only: append_le_same_length) simp
  also have "\<dots> \<longleftrightarrow> encodeBlockNumber from < ?n \<or> encodeBlockNumber from = ?n"
    using append_le_same_length [OF lf, of ?s ?s] by simp
  also have "\<dots> \<longleftrightarrow> encodeBlockNumber from \<le> ?n" by auto
  also have "\<dots> \<longleftrightarrow> be_decode (encodeBlockNumber from) \<le> be_decode ?n"
    using lf by (rule be_decode_le_iff)
  also have "\<dots> \<longleftrightarrow> from \<le> key_number sc key"
    by (simp add: be_decode_encodeBlockNumber un word_le_nat_alt)
  finally show "headerHashKey sc from \<le> key \<longleftrightarrow> from \<le> key_number sc key" .
  have "key < headerHashKey sc to \<longleftrightarrow> ?hp @ ?n @ ?s < ?hp @ encodeBlockNumber to @ ?s"
    using k(1) by (simp add: headerHashKey_def)
  also have "\<dots> \<longleftrightarrow> ?n @ ?s < encodeBlockNumber to @ ?s"
    by (simp only: append_less_same_length) simp
  also have "\<dots> \<longleftrightarrow> ?n < encodeBlockNumber to"
    using append_less_same_length [OF lt, of ?s ?s] by simp
  also have "\<dots> \<longleftrightarrow> be_decode ?n < be_decode (encodeBlockNumber to)"
    using lt by (rule be_decode_less_iff)
  also have "\<dots> \<longleftrightarrow> key_number sc key < to"
    by (simp add: be_decode_encodeBlockNumber un word_less_nat_alt)
  finally show "key < headerHashKey sc to \<longleftrightarrow> key_number sc key < to" .
qed

lemma between_keys_canonical:
  assumes "headerHashKey sc from \<le> key" and "key < headerHashKey sc to" and "canonical_shape sc key"
  shows "is_canonical_entry sc key"
proof -
  have "take (length (headerPrefix sc)) key = headerPrefix sc"
    using assms(1,2) unfolding headerHashKey_def by (rule sandwich_prefix)
  with assms(3) show ?thesis
    by (auto simp: is_canonical_entry_def canonical_shape_def has_prefix_def)
qed

lemma canonical_select:
  "(headerHashKey sc from \<le> key \<and> key < headerHashKey sc to \<and> canonical_shape sc key) \<longleftrightarrow>
   (is_canonical_entry sc key \<and> from \<le> key_number sc key \<and> key_number sc key < to)"
proof
  assume a: "headerHashKey sc from \<le> key \<and> key < headerHashKey sc to \<and> canonical_shape sc key"
  then have c: "is_canonical_entry sc key" by (blast intro: between_keys_canonical)
  with a canonical_key_bounds(1) [OF c, of "from"] canonical_key_bounds(2) [OF c, of to]
  show "is_canonical_entry sc key \<and> from \<le> key_number sc key \<and> key_number sc key < to" by simp
next
  assume a: "is_canonical_entry sc key \<and> from \<le> key_number sc key \<and> key_number sc key < to"
  then have c: "is_canonical_entry sc key" by simp
  then have "canonical_shape sc key" by (auto simp: is_canonical_entry_def canonical_shape_def)
  with a canonical_key_bounds(1) [OF c, of "from"] canonical_key_bounds(2) [OF c, of to]
  show "headerHashKey sc from \<le> key \<and> key < headerHashKey sc to \<and> canonical_shape sc key" by simp
qed

lemma canonical_number_strict:
  assumes c1: "is_canonical_entry sc k1" and c2: "is_canonical_entry sc k2" and lt: "k1 < k2"
  shows "key_number sc k1 < key_number sc k2"
proof -
  let ?hp = "headerPrefix sc" and ?s = headerHashSuffix
  let ?n1 = "take 8 (drop (length ?hp) k1)" and ?n2 = "take 8 (drop (length ?hp) k2)"
  note s1 = canonical_key_split [OF c1] and s2 = canonical_key_split [OF c2]
  have l: "length ?n1 = length ?n2" using s1(2) s2(2) by simp
  from c1 c2 have l1: "length ?hp + 8 \<le> length k1" and l2: "length ?hp + 8 \<le> length k2"
    by (simp_all add: is_canonical_entry_def)
  from lt have "?hp @ ?n1 @ ?s < ?hp @ ?n2 @ ?s" using s1(1) s2(1) by simp
  then have "?n1 @ ?s < ?n2 @ ?s" by (simp add: append_less_same_length)
  then have "?n1 < ?n2" using append_less_same_length [OF l, of ?s ?s] by simp
  then have "be_decode ?n1 < be_decode ?n2" using be_decode_less_iff [OF l] by simp
  then show ?thesis by (simp add: word_less_nat_alt unat_key_number l1 l2)
qed

lemma canonical_iterator_select:
  "map (\<lambda>(key, val). (key_number sc key, BytesToHash val))
     (filter (\<lambda>(key, val). key < headerHashKey sc to \<and> canonical_shape sc key)
        (NewIterator db [] (headerHashKey sc from))) =
   spec_canonical_hashes sc db from to"
proof -
  have "filter (\<lambda>(key, val). key < headerHashKey sc to \<and> canonical_shape sc key)
        (NewIterator db [] (headerHashKey sc from)) =
      filter (\<lambda>(key, val). is_canonical_entry sc key \<and> from \<le> key_number sc key
                  \<and> key_number sc key < to) db"
    unfolding NewIterator_def filter_filter
  proof (rule filter_cong [OF refl])
    fix x assume "x \<in> set db"
    obtain key val where x: "x = (key, val)" by (cases x)
    show "((case x of (key, val) \<Rightarrow> has_prefix [] key \<and> [] @ headerHashKey sc from \<le> key)
          \<and> (case x of (key, val) \<Rightarrow> key < headerHashKey sc to \<and> canonical_shape sc key)) =
         (case x of (key, val) \<Rightarrow> is_canonical_entry sc key \<and> from \<le> key_number sc key
                  \<and> key_number sc key < to)"
      using canonical_select [of sc "from" key to] by (auto simp: x has_prefix_def)
  qed
  then show ?thesis by (simp only: spec_canonical_hashes_def)
qed

lemma iterator_ordered: "ordered db \<Longrightarrow> sorted_wrt (<) (map fst (NewIterator db prefix start))"
proof -
  assume "ordered db"
  then have "sorted_wrt (\<lambda>a b. fst a < fst b) db" by (simp add: ordered_def sorted_wrt_map)
  then have "sorted_wrt (\<lambda>a b. fst a < fst b) (NewIterator db prefix start)"
    unfolding NewIterator_def by (intro sorted_wrt_filter)
  then show ?thesis by (simp add: sorted_wrt_map)
qed

lemma ReadAllCanonicalHashes_spec:
  assumes "0 < limit" and "ordered db"
  shows "ReadAllCanonicalHashes sc db from to limit =
     (map fst (take (nat limit) (spec_canonical_hashes sc db from to)),
      map snd (take (nat limit) (spec_canonical_hashes sc db from to)))"
proof -
  have l: "int (length ([] :: u64 list)) < limit" using assms(1) by simp
  have "canonical_hashes_loop sc (headerHashKey sc to) limit (NewIterator db [] (headerHashKey sc from)) [] [] =
     ([] @ map fst (take (nat limit - length ([] :: u64 list))
         (map (\<lambda>(key, val). (key_number sc key, BytesToHash val))
            (filter (\<lambda>(key, val). key < headerHashKey sc to \<and> canonical_shape sc key)
               (NewIterator db [] (headerHashKey sc from))))),
      [] @ map snd (take (nat limit - length ([] :: u64 list))
         (map (\<lambda>(key, val). (key_number sc key, BytesToHash val))
            (filter (\<lambda>(key, val). key < headerHashKey sc to \<and> canonical_shape sc key)
               (NewIterator db [] (headerHashKey sc from))))))"
    by (rule canonical_hashes_loop_spec [OF iterator_ordered [OF assms(2)] l])
  then have "canonical_hashes_loop sc (headerHashKey sc to) limit (NewIterator db [] (headerHashKey sc from)) [] [] =
     (map fst (take (nat limit) (spec_canonical_hashes sc db from to)),
      map snd (take (nat limit) (spec_canonical_hashes sc db from to)))"
    by (simp only: canonical_iterator_select append_Nil list.size minus_nat.diff_0)
  with assms(1) show ?thesis by (simp add: ReadAllCanonicalHashes_def Let_def)
qed

lemma spec_canonical_strict:
  assumes "ordered db"
  shows "sorted_wrt (<) (map fst (spec_canonical_hashes sc db from to))"
proof -
  let ?sel = "filter (\<lambda>(key, val). is_canonical_entry sc key \<and> from \<le> key_number sc key
                  \<and> key_number sc key < to) db"
  from assms have "sorted_wrt (\<lambda>a b. fst a < fst b) db"
    by (simp add: ordered_def sorted_wrt_map)
  then have s: "sorted_wrt (\<lambda>a b. fst a < fst b) ?sel" by (intro sorted_wrt_filter)
  have "sorted_wrt (\<lambda>a b. key_number sc (fst a) < key_number sc (fst b)) ?sel"
  proof (rule sorted_wrt_mono_rel [OF _ s])
    fix a b assume a: "a \<in> set ?sel" and b: "b \<in> set ?sel" and lt: "fst a < fst b"
    from a have ca: "is_canonical_entry sc (fst a)" by auto
    from b have cb: "is_canonical_entry sc (fst b)" by auto
    show "key_number sc (fst a) < key_number sc (fst b)"
      by (rule canonical_number_strict [OF ca cb lt])
  qed
  then show ?thesis
    by (simp add: spec_canonical_hashes_def sorted_wrt_map comp_def case_prod_beta)
qed

lemma spec_canonical_bounds:
  "list_all (\<lambda>n. from \<le> n \<and> n < to) (map fst (spec_canonical_hashes sc db from to))"
  by (auto simp: spec_canonical_hashes_def list_all_iff)

text \<open>
  Claim C7. With a limit of 0, \<^verbatim>\<open>ReadAllCanonicalHashes\<close> returns nothing, whatever the store
  holds. With a positive limit, on a store whose iterator yields the keys in ascending order,
  it returns the first \<open>limit\<close> of the canonical entries between \<open>from\<close> and \<open>to\<close>, or all
  of them if they are fewer: the keys counted are those of the header prefix, eight bytes
  and the suffix byte, their numbers are strictly ascending, none is below \<open>from\<close>, and all
  are below \<open>to\<close>.
\<close>

theorem canonical_hashes_with_limit:
  "ReadAllCanonicalHashes sc db from to 0 = ([], [])
   \<and> (0 < limit \<and> ordered db \<longrightarrow>
        ReadAllCanonicalHashes sc db from to limit =
          (map fst (take (nat limit) (spec_canonical_hashes sc db from to)),
           map snd (take (nat limit) (spec_canonical_hashes sc db from to)))
        \<and> sorted_wrt (<) (map fst (spec_canonical_hashes sc db from to))
        \<and> list_all (\<lambda>n. from \<le> n \<and> n < to) (map fst (spec_canonical_hashes sc db from to)))"
  using ReadAllCanonicalHashes_spec [of limit db sc "from" to] spec_canonical_strict [of db sc "from" to]
    spec_canonical_bounds [of "from" to sc db]
  by (simp add: ReadAllCanonicalHashes_def)

lemma encodeBlockNumber_numeral:
  "numeral v < (256::nat) \<Longrightarrow> encodeBlockNumber (numeral v) = [0, 0, 0, 0, 0, 0, 0, numeral v]"
  using encodeBlockNumber_small [of "numeral v"] by simp

lemma chain_db_keys:
  "chain_db =
     [([0x68, 0, 0, 0, 0, 0, 0, 0, 10, 0x6e], replicate 32 10),
      ([0x68, 0, 0, 0, 0, 0, 0, 0, 11, 0x6e], replicate 32 11),
      ([0x68, 0, 0, 0, 0, 0, 0, 0, 12, 0x6e], replicate 32 12),
      ([0x68, 0, 0, 0, 0, 0, 0, 0, 13, 0x6e], replicate 32 13),
      ([0x68, 0, 0, 0, 0, 0, 0, 0, 14, 0x6e], replicate 32 14),
      ([0x68, 0, 0, 0, 0, 0, 0, 0, 15, 0x6e], replicate 32 15),
      ([0x68, 0, 0, 0, 0, 0, 0, 0, 16, 0x6e], replicate 32 16),
      ([0x68, 0, 0, 0, 0, 0, 0, 0, 17, 0x6e], replicate 32 17),
      ([0x68, 0, 0, 0, 0, 0, 0, 0, 18, 0x6e], replicate 32 18),
      ([0x68, 0, 0, 0, 0, 0, 0, 0, 19, 0x6e], replicate 32 19),
      ([0x68, 0, 0, 0, 0, 0, 0, 0, 20, 0x6e], replicate 32 20)]"
  by (simp add: chain_db_def upt_conv_Cons headerHashKey_def headerHashSuffix_def schema0_def
      encodeBlockNumber_numeral)

lemma ordered_chain_db: "ordered chain_db"
  by (simp add: chain_db_keys ordered_def word_less_nat_alt)

lemma key_number_chain:
  "key_number schema0 [0x68, 0, 0, 0, 0, 0, 0, 0, b, 0x6e] = ucast b"
proof -
  have "unat b < 2 ^ 64" using unsigned_less [of b, where ?'a = nat] by simp
  then have "(word_of_nat (unat b) :: u64) = ucast b" by (simp add: unat_of_nat word_unat_eq_iff)
  then show ?thesis by (simp add: key_number_def schema0_def Uint64_def)
qed

lemma canonical_chain_key:
  "is_canonical_entry schema0 [0x68, 0, 0, 0, 0, 0, 0, 0, b, 0x6e]"
  by (simp add: is_canonical_entry_def has_prefix_def headerHashSuffix_def schema0_def)

lemma BytesToHash_32: "BytesToHash (replicate 32 x) = replicate 32 x"
  by (simp add: BytesToHash_def HashLength_def)

lemma spec_chain_db:
  "take 5 (spec_canonical_hashes schema0 chain_db 10 20) =
     [(10, replicate 32 10), (11, replicate 32 11), (12, replicate 32 12), (13, replicate 32 13),
      (14, replicate 32 14)]"
  by (simp add: spec_canonical_hashes_def chain_db_keys canonical_chain_key key_number_chain
      BytesToHash_32 word_le_nat_alt word_less_nat_alt)

text \<open>
  Eleven canonical entries at the heights 10 to 20: the call with \<open>from = 10\<close>, \<open>to = 20\<close> and
  a limit of 5 returns the five pairs of the heights 10 to 14; with a limit of 0, nothing.
\<close>

theorem canonical_hashes_with_limit_witness:
  "ReadAllCanonicalHashes schema0 chain_db 10 20 5 =
     ([10, 11, 12, 13, 14],
      [replicate 32 10, replicate 32 11, replicate 32 12, replicate 32 13, replicate 32 14])
   \<and> ReadAllCanonicalHashes schema0 chain_db 10 20 0 = ([], [])"
proof -
  have l: "(0::int) < 5" by simp
  have n: "nat 5 = 5" by simp
  from canonical_hashes_with_limit [of schema0 chain_db 10 20 5] l ordered_chain_db
  have "ReadAllCanonicalHashes schema0 chain_db 10 20 5 =
          (map fst (take (nat 5) (spec_canonical_hashes schema0 chain_db 10 20)),
           map snd (take (nat 5) (spec_canonical_hashes schema0 chain_db 10 20)))"
    and "ReadAllCanonicalHashes schema0 chain_db 10 20 0 = ([], [])"
    by blast+
  then show ?thesis by (simp only: n spec_chain_db) simp
qed

section \<open>Properties of the common-ancestor walk\<close>




























end
